theory Spec2Isabelle
  imports Main
begin

section \<open>Strings and character classes\<close>

text \<open>
  The analysed text is a JavaScript string. It is modelled as a \<^typ>\<open>string\<close>, one
  \<^typ>\<open>char\<close> per code unit; the model covers the code units below 256 (Latin-1), which
  is where all characters named by the patterns of \<^verbatim>\<open>tool.ts\<close> live. Indices count
  code units from 0, as \<^verbatim>\<open>m.index\<close> and \<^verbatim>\<open>lastIndex\<close> do.
\<close>

definition is_digit :: "char \<Rightarrow> bool" where
  \<comment> \<open>the class \<^verbatim>\<open>[0-9]\<close>\<close>
  "is_digit c = (c \<in> set ''0123456789'')"

definition is_alpha :: "char \<Rightarrow> bool" where
  \<comment> \<open>the class \<^verbatim>\<open>[a-zA-Z_]\<close>\<close>
  "is_alpha c = (c \<in> set ''abcdefghijklmnopqrstuvwxyzABCDEFGHIJKLMNOPQRSTUVWXYZ_'')"

definition is_word :: "char \<Rightarrow> bool" where
  \<comment> \<open>\<^verbatim>\<open>\w\<close>, and the classes \<^verbatim>\<open>[\w_]\<close> and \<^verbatim>\<open>[0-9a-zA-Z_]\<close>, which are the same set\<close>
  "is_word c = (is_alpha c \<or> is_digit c)"

definition is_space :: "char \<Rightarrow> bool" where
  \<comment> \<open>\<^verbatim>\<open>\s\<close>: tab, line feed, vertical tab, form feed, carriage return, space, no-break space\<close>
  "is_space c = (c \<in> set [CHR 0x09, CHR 0x0A, CHR 0x0B, CHR 0x0C, CHR 0x0D, CHR 0x20, CHR 0xA0])"

definition is_line_term :: "char \<Rightarrow> bool" where
  \<comment> \<open>the line terminators that \<^verbatim>\<open>^\<close> (flag m) and \<^verbatim>\<open>.\<close> look at\<close>
  "is_line_term c = (c = CHR 0x0A \<or> c = CHR 0x0D)"

definition non_space :: "char \<Rightarrow> bool" where
  \<comment> \<open>\<^verbatim>\<open>\S\<close>\<close>
  "non_space c = (\<not> is_space c)"

definition non_digit :: "char \<Rightarrow> bool" where
  \<comment> \<open>\<^verbatim>\<open>[^0-9]\<close>\<close>
  "non_digit c = (\<not> is_digit c)"

definition any_char :: "char \<Rightarrow> bool" where
  \<comment> \<open>\<^verbatim>\<open>.\<close> without the s flag\<close>
  "any_char c = (\<not> is_line_term c)"

definition is_quote :: "char \<Rightarrow> bool" where
  \<comment> \<open>the class \<^verbatim>\<open>["']\<close>\<close>
  "is_quote c = (c = CHR 0x22 \<or> c = CHR 0x27)"

definition is_percent :: "char \<Rightarrow> bool" where
  "is_percent c = (c = CHR ''%'')"

definition is_semicolon :: "char \<Rightarrow> bool" where
  "is_semicolon c = (c = CHR '';'')"

definition char_at :: "string \<Rightarrow> nat \<Rightarrow> char option" where
  "char_at s i = (if i < length s then Some (s ! i) else None)"

definition char_before :: "string \<Rightarrow> nat \<Rightarrow> char option" where
  "char_before s i = (if i = 0 then None else char_at s (i - 1))"

fun holds :: "(char \<Rightarrow> bool) \<Rightarrow> char option \<Rightarrow> bool" where
  "holds P None = False"
| "holds P (Some c) = P c"

definition word_boundary :: "string \<Rightarrow> nat \<Rightarrow> bool" where
  \<comment> \<open>\<^verbatim>\<open>\b\<close> holds at \<open>i\<close>: exactly one of the characters before and at \<open>i\<close> is a word
      character, a missing character counting as none\<close>
  "word_boundary s i = (holds is_word (char_before s i) \<noteq> holds is_word (char_at s i))"

definition line_start :: "string \<Rightarrow> nat \<Rightarrow> bool" where
  \<comment> \<open>\<^verbatim>\<open>^\<close> with the m flag holds at \<open>i\<close>: at the start of the text or after a line terminator\<close>
  "line_start s i = (i = 0 \<or> holds is_line_term (char_before s i))"

definition substring :: "string \<Rightarrow> nat \<Rightarrow> nat \<Rightarrow> string" where
  \<comment> \<open>the code units from index \<open>i\<close> up to, not including, index \<open>e\<close>\<close>
  "substring s i e = take (e - i) (drop i s)"

section \<open>The regular expressions of the source\<close>

text \<open>
  Every pattern of \<^verbatim>\<open>tool.ts\<close> is a sequence of the items below: assertions, literal
  text, character classes, a class under \<^verbatim>\<open>?\<close>, \<^verbatim>\<open>*\<close> or \<^verbatim>\<open>+\<close>, and capturing groups
  around such items. A word that the source splices into a pattern
  (\<^verbatim>\<open>new RegExp(`\\b${word}\\b`)\<close>) is the item \<open>Lit word\<close>: this is what the spliced text
  means when it has no character that the pattern syntax treats specially, as for the
  identifiers the editor passes.
\<close>

datatype item =
    Bol                        \<comment> \<open>\<^verbatim>\<open>^\<close> under the m flag\<close>
  | WordB                      \<comment> \<open>\<^verbatim>\<open>\b\<close>\<close>
  | NotAhead "char \<Rightarrow> bool"    \<comment> \<open>\<^verbatim>\<open>(?!c)\<close> for a one-character class\<close>
  | Lit string
  | One "char \<Rightarrow> bool"
  | Opt "char \<Rightarrow> bool"         \<comment> \<open>\<^verbatim>\<open>c?\<close>, greedy\<close>
  | Star "char \<Rightarrow> bool"        \<comment> \<open>\<^verbatim>\<open>c*\<close>, greedy\<close>
  | Plus "char \<Rightarrow> bool"        \<comment> \<open>\<^verbatim>\<open>c+\<close>, greedy\<close>
  | Grp "item list"            \<comment> \<open>a capturing group\<close>

definition plain :: "string \<Rightarrow> bool" where
  \<comment> \<open>a word made of word characters only: spliced into a pattern it stands for itself\<close>
  "plain w = list_all is_word w"

definition run_length :: "(char \<Rightarrow> bool) \<Rightarrow> string \<Rightarrow> nat \<Rightarrow> nat" where
  "run_length P s i = length (takeWhile P (drop i s))"

text \<open>
  The backtracking matcher: \<open>m_item x s i\<close> lists the ways item \<open>x\<close> can match in \<open>s\<close> from
  index \<open>i\<close>, each as the end index and the texts captured on the way, in the order in
  which a backtracking engine tries them (the longest repetition first). The first
  element of \<open>m_seq r s i\<close> is therefore the match that JavaScript reports at \<open>i\<close>.
\<close>

fun m_item :: "item \<Rightarrow> string \<Rightarrow> nat \<Rightarrow> (nat \<times> string list) list"
  and m_seq :: "item list \<Rightarrow> string \<Rightarrow> nat \<Rightarrow> (nat \<times> string list) list" where
  "m_item Bol s i = (if line_start s i then [(i, [])] else [])"
| "m_item WordB s i = (if word_boundary s i then [(i, [])] else [])"
| "m_item (NotAhead P) s i = (if holds P (char_at s i) then [] else [(i, [])])"
| "m_item (Lit w) s i =
     (if take (length w) (drop i s) = w then [(i + length w, [])] else [])"
| "m_item (One P) s i = (if holds P (char_at s i) then [(Suc i, [])] else [])"
| "m_item (Opt P) s i = (if holds P (char_at s i) then [(Suc i, []), (i, [])] else [(i, [])])"
| "m_item (Star P) s i = map (\<lambda>e. (e, [])) (rev [i ..< Suc (i + run_length P s i)])"
| "m_item (Plus P) s i = map (\<lambda>e. (e, [])) (rev [Suc i ..< Suc (i + run_length P s i)])"
| "m_item (Grp r) s i = map (\<lambda>(e, c). (e, substring s i e # c)) (m_seq r s i)"
| "m_seq [] s i = [(i, [])]"
| "m_seq (x # r) s i =
     concat (map (\<lambda>(j, c). map (\<lambda>(e, d). (e, c @ d)) (m_seq r s j)) (m_item x s i))"

definition match_at :: "item list \<Rightarrow> string \<Rightarrow> nat \<Rightarrow> (nat \<times> string list) option" where
  "match_at r s i = (case m_seq r s i of [] \<Rightarrow> None | m # _ \<Rightarrow> Some m)"

text \<open>
  A match as \<^verbatim>\<open>exec\<close> and \<^verbatim>\<open>match\<close> return it: \<open>m_groups\<close> is the array (element 0 the
  whole matched text, then the groups), \<open>m_index\<close> is \<^verbatim>\<open>m.index\<close>.
\<close>

record rmatch =
  m_index :: nat
  m_groups :: "string list"

definition group :: "rmatch \<Rightarrow> nat \<Rightarrow> string" where
  \<comment> \<open>\<^verbatim>\<open>m[k]\<close>; every pattern is used with the group numbers it has\<close>
  "group m k = (if k < length (m_groups m) then m_groups m ! k else [])"

definition m_end :: "rmatch \<Rightarrow> nat" where
  \<comment> \<open>where the match ends, \<^verbatim>\<open>m.index + m[0].length\<close>: the \<^verbatim>\<open>lastIndex\<close> that a global
      pattern is left with\<close>
  "m_end m = m_index m + length (group m 0)"

text \<open>
  \<open>search r s i\<close> is the first match at or after index \<open>i\<close>: \<^verbatim>\<open>s.match(r)\<close> and
  \<^verbatim>\<open>r.test(s)\<close> for a pattern without the g flag (\<open>i = 0\<close>), and \<^verbatim>\<open>r.exec(s)\<close> with
  \<^verbatim>\<open>lastIndex = i\<close> for a global one. No match is \<open>None\<close> (\<^verbatim>\<open>null\<close>).
\<close>

function search :: "item list \<Rightarrow> string \<Rightarrow> nat \<Rightarrow> rmatch option" where
  "search r s i =
     (if length s < i then None
      else case match_at r s i of
             Some (e, c) \<Rightarrow> Some \<lparr>m_index = i, m_groups = substring s i e # c\<rparr>
           | None \<Rightarrow> search r s (Suc i))"
  by pat_completeness auto
termination
  by (relation "measure (\<lambda>(r, s, i). Suc (length s) - i)") auto

declare search.simps [simp del]

lemma m_item_m_seq_bounds:
  "(e, c) \<in> set (m_item x s i) \<Longrightarrow> i \<le> e \<and> (i \<le> length s \<longrightarrow> e \<le> length s)"
  "(e, c) \<in> set (m_seq r s i) \<Longrightarrow> i \<le> e \<and> (i \<le> length s \<longrightarrow> e \<le> length s)"
proof (induction x s i and r s i arbitrary: e c and e c rule: m_item_m_seq.induct)
  case (4 w s i)
  then have w: "take (length w) (drop i s) = w" and e: "e = i + length w"
    by (auto split: if_splits)
  have "length w = min (length w) (length s - i)"
    using arg_cong [OF w, of length] by simp
  then show ?case using e by auto
next
  case (7 P s i)
  have "run_length P s i \<le> length s - i"
    unfolding run_length_def using length_takeWhile_le [of P "drop i s"] by simp
  then show ?case using 7 by auto
next
  case (8 P s i)
  have "run_length P s i \<le> length s - i"
    unfolding run_length_def using length_takeWhile_le [of P "drop i s"] by simp
  then show ?case using 8 by auto
next
  case (11 x r s i)
  from "11.prems" obtain j c1 d where
    a: "(j, c1) \<in> set (m_item x s i)" and b: "(e, d) \<in> set (m_seq r s j)"
    by auto
  from "11.IH"(1) [OF a] have "i \<le> j \<and> (i \<le> length s \<longrightarrow> j \<le> length s)" .
  moreover from "11.IH"(2) [OF a refl b] have "j \<le> e \<and> (j \<le> length s \<longrightarrow> e \<le> length s)" .
  ultimately show ?case by auto
qed (auto simp: char_at_def split: if_splits)

lemma search_bounds:
  "search r s i = Some m \<Longrightarrow> i \<le> m_index m \<and> m_index m \<le> length s"
proof (induction r s i rule: search.induct)
  case (1 r s i)
  show ?case
  proof (cases "match_at r s i")
    case None
    with 1 show ?thesis
      by (subst (asm) (2) search.simps) (auto split: if_splits)
  next
    case (Some a)
    with "1.prems" show ?thesis
      by (subst (asm) search.simps) (auto split: if_splits prod.splits)
  qed
qed

text \<open>
  The loop that the source writes around a global pattern,
  \<^verbatim>\<open>while ((m = regex.exec(str)) !== null) { if (m.index === regex.lastIndex) regex.lastIndex++; ... }\<close>:
  \<open>exec_loop r s i\<close> is the list of the matches it visits when it starts with
  \<^verbatim>\<open>lastIndex = i\<close>. A failing \<^verbatim>\<open>exec\<close> ends the loop and resets \<^verbatim>\<open>lastIndex\<close> to 0, so
  every use of the loop below starts at 0.
\<close>

function exec_loop :: "item list \<Rightarrow> string \<Rightarrow> nat \<Rightarrow> rmatch list" where
  "exec_loop r s i =
     (case search r s i of
        None \<Rightarrow> []
      | Some m \<Rightarrow> m # exec_loop r s (if m_index m = m_end m then Suc (m_end m) else m_end m))"
  by pat_completeness auto
termination
proof (relation "measure (\<lambda>(r, s, i). Suc (length s) - i)", goal_cases)
  case 1
  show ?case by simp
next
  case (2 r s i m)
  from search_bounds [OF 2] have "i \<le> m_index m" and "m_index m \<le> length s"
    by simp_all
  then show ?case
    by (cases "group m 0") (auto simp: m_end_def)
qed

declare exec_loop.simps [simp del]

lemma exec_loop_code [code]:
  "exec_loop r s i =
     (let res = search r s i in
      if res = None then []
      else the res # exec_loop r s (if m_index (the res) = m_end (the res)
                                    then Suc (m_end (the res)) else m_end (the res)))"
  by (subst exec_loop.simps) (simp split: option.splits)

definition matchAll :: "string \<Rightarrow> item list \<Rightarrow> rmatch list" where
  \<comment> \<open>Modelled from the spec: \<^verbatim>\<open>TextUtils.matchAll\<close> (\<^verbatim>\<open>utils/TextUtils\<close> is not among the
      sources), the generic "match all" utility: all matches of a global pattern, found by
      the same loop as above.\<close>
  "matchAll str r = exec_loop r str 0"

section \<open>JavaScript string and array operations used by the source\<close>

fun split_on :: "char \<Rightarrow> string \<Rightarrow> string list" where
  \<comment> \<open>\<^verbatim>\<open>s.split(d)\<close> for a one-character separator; the result is never empty\<close>
  "split_on d [] = [[]]"
| "split_on d (c # cs) =
     (if c = d then [] # split_on d cs
      else (c # hd (split_on d cs)) # tl (split_on d cs))"

definition slice0 :: "string \<Rightarrow> int \<Rightarrow> string" where
  \<comment> \<open>\<^verbatim>\<open>s.slice(0, e)\<close>: a negative end counts from the end of the string\<close>
  "slice0 s e = (if e < 0 then take (nat (int (length s) + e)) s else take (nat e) s)"

fun contains :: "string \<Rightarrow> string \<Rightarrow> bool" where
  \<comment> \<open>\<^verbatim>\<open>s.indexOf(t) !== -1\<close>\<close>
  "contains [] t = (t = [])"
| "contains (c # cs) t = (take (length t) (c # cs) = t \<or> contains cs t)"

fun indexOf :: "'a list \<Rightarrow> 'a \<Rightarrow> int" where
  \<comment> \<open>\<^verbatim>\<open>xs.indexOf(v)\<close> of an array: the first index of \<open>v\<close>, or -1\<close>
  "indexOf [] v = - 1"
| "indexOf (x # xs) v =
     (if x = v then 0 else (let k = indexOf xs v in if k < 0 then - 1 else k + 1))"

definition filter_indexed :: "('a \<Rightarrow> nat \<Rightarrow> bool) \<Rightarrow> 'a list \<Rightarrow> 'a list" where
  \<comment> \<open>\<^verbatim>\<open>xs.filter((v, i) => p(v, i))\<close>\<close>
  "filter_indexed p xs = map snd (filter (\<lambda>(i, v). p v i) (enumerate 0 xs))"

definition set_add :: "'a \<Rightarrow> 'a list \<Rightarrow> 'a list" where
  \<comment> \<open>\<^verbatim>\<open>Set.prototype.add\<close>, the set kept as the list of its elements in insertion order\<close>
  "set_add x xs = (if x \<in> set xs then xs else xs @ [x])"

section \<open>The functions of tool.ts\<close>

record StructCompletion =
  sc_name :: string
  sc_members :: "string list"

record FunctionCall =
  fc_name :: string
  fc_params :: "string list"
  fc_returns :: "string list"

record rowcol =
  row :: nat
  col :: nat

record occurrence =
  occ_row :: nat
  column :: nat

subsection \<open>matchAddPath\<close>

definition addpath_regex :: "item list" where
  \<comment> \<open>\<^verbatim>\<open>/^(?!\%)addpath\(["'](\S+)["']\)/gm\<close>\<close>
  "addpath_regex =
     [Bol, NotAhead is_percent, Lit ''addpath('', One is_quote, Grp [Plus non_space],
      One is_quote, Lit '')'']"

definition matchAddPath :: "string \<Rightarrow> string list" where
  \<comment> \<open>\<^verbatim>\<open>m.forEach(() => { m && addPaths.push(m[1]) })\<close> runs once for each element of the
      match array \<open>m\<close>, and pushes \<open>m[1]\<close> each time\<close>
  "matchAddPath str =
     concat (map (\<lambda>m. map (\<lambda>_. group m 1) (m_groups m)) (exec_loop addpath_regex str 0))"

subsection \<open>getCurrentFileVariables\<close>

definition variable_regex :: "item list" where
  \<comment> \<open>\<^verbatim>\<open>/\b([\w_]+)\b/gm\<close>\<close>
  "variable_regex = [WordB, Grp [Plus is_word], WordB]"

definition keep_regex :: "item list" where
  \<comment> \<open>\<^verbatim>\<open>/[^0-9]\S+/\<close>\<close>
  "keep_regex = [One non_digit, Plus non_space]"

definition keywordSet :: "string list" where
  "keywordSet =
     [''break'', ''case'', ''catch'', ''classdef'', ''continue'', ''else'', ''elseif'',
      ''end'', ''for'', ''function'', ''global'', ''if'', ''otherwise'', ''parfor'',
      ''persistent'', ''return'', ''spmd'', ''switch'', ''try'', ''while'']"

definition collect :: "rmatch list \<Rightarrow> string list" where
  \<comment> \<open>the set \<open>res\<close> after the loop: \<^verbatim>\<open>m.forEach((match, groupIndex) => { res.add(match) })\<close>
      for each match in turn\<close>
  "collect ms = foldl (\<lambda>res m. foldl (\<lambda>res g. set_add g res) res (m_groups m)) [] ms"

definition getCurrentFileVariables :: "string \<Rightarrow> string list" where
  "getCurrentFileVariables content =
     filter (\<lambda>v. search keep_regex v 0 \<noteq> None \<and> v \<notin> set keywordSet)
       (collect (exec_loop variable_regex content 0))"

subsection \<open>getRowCol\<close>

definition FUNCTION_PART :: string where
  "FUNCTION_PART = ''function ''"

definition assign_regex :: "string \<Rightarrow> item list" where
  \<comment> \<open>\<^verbatim>\<open>new RegExp(`\\b${word}\\s*=`, "m")\<close>\<close>
  "assign_regex word = [WordB, Lit word, Star is_space, Lit ''='']"

definition single_regex :: "string \<Rightarrow> item list" where
  \<comment> \<open>\<^verbatim>\<open>new RegExp(`\\b${word}\\b`)\<close>\<close>
  "single_regex word = [WordB, Lit word, WordB]"

fun function_line :: "string list \<Rightarrow> nat \<Rightarrow> string \<Rightarrow> rowcol option" where
  \<comment> \<open>the \<^verbatim>\<open>for\<close> loop of case 2 from line \<open>i\<close> on, over the lines not yet visited; leaving the
      loop by \<^verbatim>\<open>break\<close> or at its end reaches \<^verbatim>\<open>return null\<close>\<close>
  "function_line [] i word = None"
| "function_line (l # ls) i word =
     (if contains l FUNCTION_PART then
        (case search (single_regex word) l 0 of
           Some resSingle \<Rightarrow>
             if m_index resSingle \<noteq> 0 then Some \<lparr>row = i, col = m_index resSingle\<rparr> else None
         | None \<Rightarrow> None)
      else function_line ls (Suc i) word)"

definition getRowCol :: "string \<Rightarrow> string \<Rightarrow> rowcol option" where
  "getRowCol content word =
     (case search (assign_regex word) content 0 of
        Some res \<Rightarrow>
          (let rows = split_on CHR 0x0A (slice0 content (int (m_index res)));
               row = length rows - 1;
               col = length (rows ! row)
           in Some \<lparr>row = row, col = col\<rparr>)
      | None \<Rightarrow>
          if contains content FUNCTION_PART
          then function_line (split_on CHR 0x0A content) 0 word
          else None)"

subsection \<open>getRangesByName\<close>

definition getRangesByName :: "string \<Rightarrow> string \<Rightarrow> occurrence list" where
  "getRangesByName content name =
     concat (map (\<lambda>(i, v). map (\<lambda>m. \<lparr>occ_row = i, column = m_index m\<rparr>)
                                (exec_loop (single_regex name) v 0))
                 (enumerate 0 (split_on CHR 0x0A content)))"

subsection \<open>findMemberNames, getStructNames, getStructCompletions\<close>

definition member_regex :: "string \<Rightarrow> item list" where
  \<comment> \<open>\<^verbatim>\<open>new RegExp(`\\s?${structName}\\.(\\S+);?`, 'gm')\<close>\<close>
  "member_regex structName =
     [Opt is_space, Lit structName, Lit ''.'', Grp [Plus non_space], Opt is_semicolon]"

definition findMemberNames :: "string \<Rightarrow> string \<Rightarrow> string \<Rightarrow> string list" where
  \<comment> \<open>\<^verbatim>\<open>replace\<close> with a string pattern removes the first occurrence only\<close>
  "findMemberNames fileName content structName =
     (let res = matchAll content (member_regex structName);
          names = map (\<lambda>v. remove1 CHR '':'' (remove1 CHR '';'' (group v 1))) res;
          names = filter (\<lambda>v. CHR ''('' \<notin> set v) names
      in filter_indexed (\<lambda>v i. indexOf names v = int i) names)"

definition struct_regex :: "item list" where
  \<comment> \<open>\<^verbatim>\<open>/([a-zA-Z\_][0-9a-zA-Z\_]*)\./gm\<close>\<close>
  "struct_regex = [Grp [One is_alpha, Star is_word], Lit ''.'']"

definition getStructNames :: "string \<Rightarrow> string \<Rightarrow> string list" where
  "getStructNames fileName content =
     (let res = matchAll content struct_regex;
          structNames = map (\<lambda>v. group v 1) res;
          basename = slice0 fileName (int (length fileName) - 2)
      in filter_indexed (\<lambda>v i. indexOf structNames v = int i \<and> v \<noteq> basename) structNames)"

definition getStructCompletions :: "string \<Rightarrow> string \<Rightarrow> StructCompletion list" where
  "getStructCompletions fileName content =
     map (\<lambda>name. \<lparr>sc_name = name, sc_members = findMemberNames fileName content name\<rparr>)
       (getStructNames fileName content)"

subsection \<open>getFunctionCall\<close>

definition call_regex :: "item list" where
  \<comment> \<open>\<^verbatim>\<open>/\[(.+)\]\s*=\s*(\S+)\((.*)\)/g\<close>\<close>
  "call_regex =
     [Lit ''['', Grp [Plus any_char], Lit '']'', Star is_space, Lit ''='', Star is_space,
      Grp [Plus non_space], Lit ''('', Grp [Star any_char], Lit '')'']"

definition getFunctionCall :: "string \<Rightarrow> FunctionCall list" where
  "getFunctionCall content =
     map (\<lambda>v. \<lparr>fc_name = group v 2,
               fc_params = split_on CHR '','' (filter non_space (group v 3)),
               fc_returns = split_on CHR '','' (filter non_space (group v 1))\<rparr>)
       (matchAll content call_regex)"

section \<open>Notions used in the statements\<close>

definition occ_before :: "occurrence \<Rightarrow> occurrence \<Rightarrow> bool" where
  \<comment> \<open>row-major order: an earlier row, or the same row and a smaller column\<close>
  "occ_before a b = (occ_row a < occ_row b \<or> (occ_row a = occ_row b \<and> column a < column b))"

definition line_occurrences :: "string \<Rightarrow> nat \<Rightarrow> string \<Rightarrow> occurrence list" where
  \<comment> \<open>what \<open>getRangesByName\<close> reports for the line \<open>v\<close> with line number \<open>i\<close>\<close>
  "line_occurrences name i v =
     map (\<lambda>m. \<lparr>occ_row = i, column = m_index m\<rparr>) (exec_loop (single_regex name) v 0)"

definition occurrences_from :: "string \<Rightarrow> nat \<Rightarrow> string list \<Rightarrow> occurrence list" where
  \<comment> \<open>what \<open>getRangesByName\<close> reports for the lines \<open>ls\<close>, numbered from \<open>n\<close> on\<close>
  "occurrences_from name n ls =
     concat (map (\<lambda>(i, v). line_occurrences name i v) (enumerate n ls))"

definition whole_word_at :: "string \<Rightarrow> nat \<Rightarrow> string \<Rightarrow> bool" where
  \<comment> \<open>a whole-word occurrence of \<open>name\<close> in the line \<open>l\<close> at index \<open>j\<close>: the text is there, and
      neither the character before it nor the character after it is a word character\<close>
  "whole_word_at l j name =
     (substring l j (j + length name) = name
      \<and> \<not> holds is_word (char_before l j)
      \<and> \<not> holds is_word (char_at l (j + length name)))"

definition first_marker_line :: "string \<Rightarrow> nat" where
  \<comment> \<open>the index of the first line of the content that contains \<^verbatim>\<open>function \<close>; the number of
      lines when there is none\<close>
  "first_marker_line content =
     length (takeWhile (\<lambda>l. \<not> contains l FUNCTION_PART) (split_on CHR 0x0A content))"

definition run_start :: "string \<Rightarrow> nat \<Rightarrow> bool" where
  \<comment> \<open>a maximal run of word characters starts at index \<open>i\<close>: there is a word character at \<open>i\<close>
      and none just before it\<close>
  "run_start s i = (holds is_word (char_at s i) \<and> \<not> holds is_word (char_before s i))"

definition maximal_runs :: "string \<Rightarrow> string list" where
  \<comment> \<open>the maximal runs of word characters of the content, from left to right: at each start
      of a run, the word characters from there on for as long as they go\<close>
  "maximal_runs s =
     map (\<lambda>i. takeWhile is_word (drop i s)) (filter (run_start s) [0 ..< length s])"

definition early_non_digit :: "string \<Rightarrow> bool" where
  \<comment> \<open>some character of the token other than its last one is not a digit\<close>
  "early_non_digit t = list_ex non_digit (butlast t)"

definition directive_at :: "string \<Rightarrow> nat \<Rightarrow> bool" where
  \<comment> \<open>at index \<open>i\<close> the text reads \<^verbatim>\<open>addpath(\<close>, a quote, a path of \<open>n > 0\<close> characters none of
      which is whitespace, a quote, and \<^verbatim>\<open>)\<close>\<close>
  "directive_at s i =
     (\<exists>n. 0 < n
        \<and> substring s i (i + 8) = ''addpath(''
        \<and> holds is_quote (char_at s (i + 8))
        \<and> (\<forall>k<n. holds non_space (char_at s (i + 9 + k)))
        \<and> holds is_quote (char_at s (i + 9 + n))
        \<and> char_at s (i + 10 + n) = Some CHR 0x29)"

fun join_with :: "char \<Rightarrow> string list \<Rightarrow> string" where
  \<comment> \<open>the pieces written one after the other with the separator between neighbours\<close>
  "join_with d [] = []"
| "join_with d [p] = p"
| "join_with d (p # q # ps) = p @ d # join_with d (q # ps)"

definition comma_pieces :: "string \<Rightarrow> string list \<Rightarrow> bool" where
  \<comment> \<open>\<open>ps\<close> are the comma-separated pieces of the segment \<open>seg\<close> once its whitespace is
      removed: no piece has a comma, and joined by commas they give back the segment without
      its whitespace\<close>
  "comma_pieces seg ps =
     (ps \<noteq> [] \<and> list_all (\<lambda>p. CHR '','' \<notin> set p) ps
      \<and> join_with CHR '','' ps = filter non_space seg)"

section \<open>Properties of the matcher\<close>

lemma match_at_bounds:
  assumes "match_at r s i = Some (e, c)"
  shows "i \<le> e" and "i \<le> length s \<Longrightarrow> e \<le> length s"
proof -
  from assms have "(e, c) \<in> set (m_seq r s i)"
    by (auto simp: match_at_def split: list.splits)
  from m_item_m_seq_bounds(2) [OF this]
  show "i \<le> e" and "i \<le> length s \<Longrightarrow> e \<le> length s" by simp_all
qed

lemma length_substring: "e \<le> length s \<Longrightarrow> length (substring s i e) = e - i"
  by (simp add: substring_def)

lemma search_SomeD:
  assumes "search r s i = Some m"
  shows "i \<le> m_index m" and "m_index m \<le> length s"
    and "\<exists>e c. match_at r s (m_index m) = Some (e, c)
               \<and> m_groups m = substring s (m_index m) e # c"
    and "\<And>k. i \<le> k \<Longrightarrow> k < m_index m \<Longrightarrow> match_at r s k = None"
proof -
  have "i \<le> m_index m \<and> m_index m \<le> length s
      \<and> (\<exists>e c. match_at r s (m_index m) = Some (e, c)
               \<and> m_groups m = substring s (m_index m) e # c)
      \<and> (\<forall>k. i \<le> k \<and> k < m_index m \<longrightarrow> match_at r s k = None)"
    using assms
  proof (induction r s i rule: search.induct)
    case (1 r s i)
    from "1.prems" have le: "i \<le> length s"
      by (subst (asm) search.simps) (auto split: if_splits)
    show ?case
    proof (cases "match_at r s i")
      case None
      with "1.prems" le have next_step: "search r s (Suc i) = Some m"
        by (subst (asm) search.simps) simp
      from "1.IH" [OF _ None next_step] le
      have ih: "Suc i \<le> m_index m \<and> m_index m \<le> length s
          \<and> (\<exists>e c. match_at r s (m_index m) = Some (e, c)
                   \<and> m_groups m = substring s (m_index m) e # c)
          \<and> (\<forall>k. Suc i \<le> k \<and> k < m_index m \<longrightarrow> match_at r s k = None)"
        by simp
      have "match_at r s k = None" if "i \<le> k" "k < m_index m" for k
      proof (cases "k = i")
        case True
        then show ?thesis using None by simp
      next
        case False
        then show ?thesis using ih that by simp
      qed
      then show ?thesis using ih by auto
    next
      case (Some a)
      obtain e c where a: "a = (e, c)" by (cases a)
      from "1.prems" le Some a have "m = \<lparr>m_index = i, m_groups = substring s i e # c\<rparr>"
        by (subst (asm) search.simps) simp
      then show ?thesis using le Some a by auto
    qed
  qed
  then show "i \<le> m_index m" and "m_index m \<le> length s"
    and "\<exists>e c. match_at r s (m_index m) = Some (e, c)
               \<and> m_groups m = substring s (m_index m) e # c"
    and "\<And>k. i \<le> k \<Longrightarrow> k < m_index m \<Longrightarrow> match_at r s k = None"
    by simp_all
qed

lemma search_NoneD:
  "search r s i = None \<Longrightarrow> i \<le> k \<Longrightarrow> k \<le> length s \<Longrightarrow> match_at r s k = None"
proof (induction r s i rule: search.induct)
  case (1 r s i)
  from "1.prems" have le: "i \<le> length s" by simp
  from "1.prems"(1) le have here: "match_at r s i = None"
    by (subst (asm) search.simps) (auto split: option.splits)
  with "1.prems"(1) le have next_step: "search r s (Suc i) = None"
    by (subst (asm) search.simps) simp
  show ?case
  proof (cases "k = i")
    case True
    then show ?thesis using here by simp
  next
    case False
    with "1.prems" have "Suc i \<le> k" by simp
    from "1.IH" [OF _ here next_step this "1.prems"(3)] le show ?thesis by simp
  qed
qed

lemma search_first:
  assumes "match_at r s j = Some (e, c)" and "i \<le> j" and "j \<le> length s"
    and "\<And>k. i \<le> k \<Longrightarrow> k < j \<Longrightarrow> match_at r s k = None"
  shows "search r s i = Some \<lparr>m_index = j, m_groups = substring s j e # c\<rparr>"
  using assms
proof (induction r s i rule: search.induct)
  case (1 r s i)
  show ?case
  proof (cases "i = j")
    case True
    then show ?thesis using "1.prems" by (subst search.simps) simp
  next
    case False
    with "1.prems" have lt: "i < j" by simp
    then have here: "match_at r s i = None" using "1.prems"(4) by simp
    have "search r s (Suc i) = Some \<lparr>m_index = j, m_groups = substring s j e # c\<rparr>"
    proof (rule "1.IH" [OF _ here "1.prems"(1) _ "1.prems"(3)])
      show "\<not> length s < i" using lt "1.prems"(3) by simp
      show "Suc i \<le> j" using lt by simp
      show "match_at r s k = None" if "Suc i \<le> k" "k < j" for k
        using "1.prems"(4) that by simp
    qed
    then show ?thesis using here lt "1.prems"(3) by (subst search.simps) simp
  qed
qed

lemma search_m_end:
  assumes "search r s i = Some m"
  shows "m_index m \<le> m_end m" and "m_end m \<le> length s"
    and "\<exists>c. match_at r s (m_index m) = Some (m_end m, c)
             \<and> m_groups m = substring s (m_index m) (m_end m) # c"
proof -
  from search_SomeD(3) [OF assms] obtain e c where
    m: "match_at r s (m_index m) = Some (e, c)" and g: "m_groups m = substring s (m_index m) e # c"
    by blast
  from match_at_bounds [OF m] search_SomeD(2) [OF assms]
  have b: "m_index m \<le> e" "e \<le> length s" by simp_all
  then have "m_end m = e"
    by (simp add: m_end_def group_def g length_substring)
  with m g b show "m_index m \<le> m_end m" and "m_end m \<le> length s"
    and "\<exists>c. match_at r s (m_index m) = Some (m_end m, c)
             \<and> m_groups m = substring s (m_index m) (m_end m) # c"
    by simp_all
qed

lemma exec_loop_None: "search r s i = None \<Longrightarrow> exec_loop r s i = []"
  by (subst exec_loop.simps) simp

lemma exec_loop_Some:
  "search r s i = Some m \<Longrightarrow>
   exec_loop r s i = m # exec_loop r s (if m_index m = m_end m then Suc (m_end m) else m_end m)"
  by (subst exec_loop.simps) simp

lemma exec_loop_index_ge: "m \<in> set (exec_loop r s i) \<Longrightarrow> i \<le> m_index m"
proof (induction r s i rule: exec_loop.induct)
  case (1 r s i)
  show ?case
  proof (cases "search r s i")
    case None
    with "1.prems" show ?thesis by (simp add: exec_loop_None)
  next
    case (Some a)
    let ?n = "if m_index a = m_end a then Suc (m_end a) else m_end a"
    from "1.prems" Some have "m = a \<or> m \<in> set (exec_loop r s ?n)"
      by (simp add: exec_loop_Some)
    then show ?thesis
    proof
      assume "m = a"
      then show ?thesis using search_SomeD(1) [OF Some] by simp
    next
      assume "m \<in> set (exec_loop r s ?n)"
      from "1.IH" [OF Some this] have "?n \<le> m_index m" .
      moreover have "i \<le> ?n"
        using search_SomeD(1) [OF Some] search_m_end(1) [OF Some] by auto
      ultimately show ?thesis by simp
    qed
  qed
qed

lemma exec_loop_increasing: "sorted_wrt (<) (map m_index (exec_loop r s i))"
proof (induction r s i rule: exec_loop.induct)
  case (1 r s i)
  show ?case
  proof (cases "search r s i")
    case None
    then show ?thesis by (simp add: exec_loop_None)
  next
    case (Some a)
    let ?n = "if m_index a = m_end a then Suc (m_end a) else m_end a"
    have "m_index a < ?n"
      using search_m_end(1) [OF Some] by auto
    then have "m_index a < m_index m" if "m \<in> set (exec_loop r s ?n)" for m
      using exec_loop_index_ge [OF that] by simp
    then show ?thesis
      using "1.IH" [OF Some] Some by (simp add: exec_loop_Some)
  qed
qed

lemma exec_loop_sound:
  "m \<in> set (exec_loop r s i) \<Longrightarrow>
   m_index m \<le> m_end m \<and> m_end m \<le> length s
   \<and> (\<exists>c. match_at r s (m_index m) = Some (m_end m, c)
          \<and> m_groups m = substring s (m_index m) (m_end m) # c)"
proof (induction r s i rule: exec_loop.induct)
  case (1 r s i)
  show ?case
  proof (cases "search r s i")
    case None
    with "1.prems" show ?thesis by (simp add: exec_loop_None)
  next
    case (Some a)
    let ?n = "if m_index a = m_end a then Suc (m_end a) else m_end a"
    from "1.prems" Some have "m = a \<or> m \<in> set (exec_loop r s ?n)"
      by (simp add: exec_loop_Some)
    then show ?thesis
    proof
      assume "m = a"
      then show ?thesis using search_m_end [OF Some] by simp
    next
      assume "m \<in> set (exec_loop r s ?n)"
      from "1.IH" [OF Some this] show ?thesis .
    qed
  qed
qed

lemma exec_loop_complete:
  assumes "match_at r s j = Some (e, c)" and "i \<le> j" and "j \<le> length s"
    and "\<And>k e' c'. i \<le> k \<Longrightarrow> k < j \<Longrightarrow> match_at r s k = Some (e', c') \<Longrightarrow> e' \<le> j"
  shows "\<lparr>m_index = j, m_groups = substring s j e # c\<rparr> \<in> set (exec_loop r s i)"
  using assms
proof (induction r s i rule: exec_loop.induct)
  case (1 r s i)
  show ?case
  proof (cases "search r s i")
    case None
    from search_NoneD [OF None "1.prems"(2,3)] "1.prems"(1) show ?thesis by simp
  next
    case (Some a)
    let ?n = "if m_index a = m_end a then Suc (m_end a) else m_end a"
    have step: "exec_loop r s i = a # exec_loop r s ?n"
      using Some by (rule exec_loop_Some)
    have "m_index a \<le> j"
    proof (rule ccontr)
      assume "\<not> m_index a \<le> j"
      then have "j < m_index a" by simp
      from search_SomeD(4) [OF Some "1.prems"(2) this] "1.prems"(1) show False by simp
    qed
    show ?thesis
    proof (cases "m_index a = j")
      case True
      from search_SomeD(3) [OF Some] True "1.prems"(1)
      have "m_groups a = substring s j e # c" by auto
      with True have "a = \<lparr>m_index = j, m_groups = substring s j e # c\<rparr>" by simp
      then show ?thesis using step by simp
    next
      case False
      with \<open>m_index a \<le> j\<close> have lt: "m_index a < j" by simp
      from search_m_end(3) [OF Some] obtain c' where
        ma: "match_at r s (m_index a) = Some (m_end a, c')" by blast
      from "1.prems"(4) [OF search_SomeD(1) [OF Some] lt ma] have "m_end a \<le> j" .
      then have nj: "?n \<le> j" using lt by auto
      have "\<lparr>m_index = j, m_groups = substring s j e # c\<rparr> \<in> set (exec_loop r s ?n)"
      proof (rule "1.IH" [OF Some "1.prems"(1) nj "1.prems"(3)])
        fix k e' c'
        assume "?n \<le> k" "k < j" "match_at r s k = Some (e', c')"
        moreover have "i \<le> ?n"
          using search_SomeD(1) [OF Some] search_m_end(1) [OF Some] by auto
        ultimately show "e' \<le> j" using "1.prems"(4) [of k e' c'] by simp
      qed
      then show ?thesis using step by simp
    qed
  qed
qed

subsection \<open>Runs of a character class\<close>

lemma run_length_nth:
  assumes "k < run_length P s i"
  shows "i + k < length s" and "P (s ! (i + k))"
proof -
  have le: "run_length P s i \<le> length (drop i s)"
    unfolding run_length_def by (rule length_takeWhile_le)
  with assms show b: "i + k < length s" by simp
  from assms have k: "k < length (takeWhile P (drop i s))" by (simp add: run_length_def)
  then have "takeWhile P (drop i s) ! k \<in> set (takeWhile P (drop i s))" by simp
  then have "P (takeWhile P (drop i s) ! k)" by (rule set_takeWhileD [THEN conjunct2])
  then have "P (drop i s ! k)" using k by (simp add: takeWhile_nth)
  then show "P (s ! (i + k))" using b by simp
qed

lemma run_length_end: "\<not> holds P (char_at s (i + run_length P s i))"
proof (cases "i + run_length P s i < length s")
  case True
  then have "length (takeWhile P (drop i s)) < length (drop i s)"
    by (simp add: run_length_def)
  from nth_length_takeWhile [OF this] True show ?thesis
    by (simp add: char_at_def run_length_def)
next
  case False
  then show ?thesis by (simp add: char_at_def)
qed

lemma run_length_pos: "0 < run_length P s i \<longleftrightarrow> holds P (char_at s i)"
proof
  assume "0 < run_length P s i"
  from run_length_nth [OF this] show "holds P (char_at s i)" by (simp add: char_at_def)
next
  assume h: "holds P (char_at s i)"
  show "0 < run_length P s i"
  proof (rule ccontr)
    assume "\<not> 0 < run_length P s i"
    then have "run_length P s i = 0" by simp
    with run_length_end [of P s i] h show False by simp
  qed
qed

lemma substring_run: "substring s i (i + run_length P s i) = takeWhile P (drop i s)"
  by (simp add: substring_def run_length_def takeWhile_eq_take [symmetric])

lemma m_seq_Plus:
  "m_seq [Plus P] s i = map (\<lambda>e. (e, [])) (rev [Suc i ..< Suc (i + run_length P s i)])"
  by (simp add: comp_def concat_map_singleton)

lemma word_boundary_run_end:
  assumes "0 < run_length is_word s i"
  shows "word_boundary s (i + run_length is_word s i)"
proof -
  let ?n = "run_length is_word s i"
  have k: "?n - 1 < ?n" using assms by simp
  from run_length_nth [OF k] assms
  have "holds is_word (char_before s (i + ?n))"
    by (simp add: char_before_def char_at_def)
  then show ?thesis using run_length_end [of is_word s i] by (simp add: word_boundary_def)
qed

subsection \<open>Matching a pattern item by item\<close>

lemma m_seq_WordB:
  "m_seq (WordB # r) s i = (if word_boundary s i then m_seq r s i else [])"
  by (simp add: case_prod_beta)

lemma m_seq_Bol:
  "m_seq (Bol # r) s i = (if line_start s i then m_seq r s i else [])"
  by (simp add: case_prod_beta)

lemma m_seq_NotAhead:
  "m_seq (NotAhead P # r) s i = (if holds P (char_at s i) then [] else m_seq r s i)"
  by (simp add: case_prod_beta)

lemma m_seq_Lit:
  "m_seq (Lit w # r) s i =
     (if take (length w) (drop i s) = w then m_seq r s (i + length w) else [])"
  by (simp add: case_prod_beta)

lemma m_seq_One:
  "m_seq (One P # r) s i = (if holds P (char_at s i) then m_seq r s (Suc i) else [])"
  by (simp add: case_prod_beta)

lemma m_seq_Grp:
  "m_seq (Grp g # r) s i =
     concat (map (\<lambda>(j, c). map (\<lambda>(e, d). (e, substring s i j # c @ d)) (m_seq r s j))
                 (m_seq g s i))"
  by (simp add: split_def comp_def)

lemma m_seq_Nil: "m_seq [] s i = [(i, [])]"
  by simp

lemma search_None_iff:
  "search r s i = None \<longleftrightarrow> (\<forall>k. i \<le> k \<and> k \<le> length s \<longrightarrow> match_at r s k = None)"
proof
  assume "search r s i = None"
  then show "\<forall>k. i \<le> k \<and> k \<le> length s \<longrightarrow> match_at r s k = None"
    using search_NoneD by blast
next
  assume a: "\<forall>k. i \<le> k \<and> k \<le> length s \<longrightarrow> match_at r s k = None"
  show "search r s i = None"
  proof (cases "search r s i")
    case None
    then show ?thesis .
  next
    case (Some m)
    from search_SomeD(1,2,3) [OF Some] a show ?thesis by auto
  qed
qed

section \<open>Properties of the string operations\<close>

lemma split_on_nonempty [simp]: "split_on d s \<noteq> []"
  by (induction s) auto

lemma length_split_on: "length (split_on d s) = Suc (count_list s d)"
proof (induction s)
  case Nil
  show ?case by simp
next
  case (Cons c cs)
  have "length (tl (split_on d cs)) = count_list cs d"
    using Cons by simp
  then show ?case using Cons by simp
qed

lemma hd_split_on: "hd (split_on d s) = takeWhile (\<lambda>c. c \<noteq> d) s"
  by (induction s) auto

lemma split_on_single: "d \<notin> set s \<Longrightarrow> split_on d s = [s]"
proof (induction s)
  case Nil
  show ?case by simp
next
  case (Cons c cs)
  then have "split_on d cs = [cs]" by simp
  then show ?case using Cons.prems by auto
qed

lemma last_split_on: "last (split_on d s) = rev (takeWhile (\<lambda>c. c \<noteq> d) (rev s))"
proof (induction s)
  case Nil
  show ?case by simp
next
  case (Cons c cs)
  show ?case
  proof (cases "c = d")
    case True
    then show ?thesis using Cons by (simp add: takeWhile_append)
  next
    case False
    show ?thesis
    proof (cases "d \<in> set cs")
      case True
      then have "1 < length (split_on d cs)"
        using count_list_0_iff [of cs d] by (simp add: length_split_on)
      then have "tl (split_on d cs) \<noteq> []"
        by (cases "split_on d cs") auto
      moreover have "last (tl (split_on d cs)) = last (split_on d cs)"
        using calculation by (cases "split_on d cs") auto
      ultimately show ?thesis
        using Cons False True by (auto simp: takeWhile_append)
    next
      case d: False
      then show ?thesis using False by (simp add: split_on_single takeWhile_append)
    qed
  qed
qed

lemma take_drop_eq_nth:
  assumes "take (length w) (drop j l) = w" and "k < length w"
  shows "j + k < length l" and "l ! (j + k) = w ! k"
proof -
  have len: "length w = min (length w) (length l - j)"
    using arg_cong [OF assms(1), of length] by simp
  with assms(2) show b: "j + k < length l" by simp
  have "w ! k = take (length w) (drop j l) ! k" using assms(1) by simp
  also have "\<dots> = l ! (j + k)" using assms(2) b by simp
  finally show "l ! (j + k) = w ! k" by simp
qed

lemma slice0_nat: "slice0 s (int n) = take n s"
  by (simp add: slice0_def)

lemma slice0_basename: "slice0 f (int (length f) - 2) = take (length f - 2) f"
proof (cases "2 \<le> length f")
  case True
  then have "int (length f) - 2 = int (length f - 2)" by simp
  then show ?thesis by (simp only: slice0_nat)
next
  case False
  then have "length f = 0 \<or> length f = 1" by arith
  then show ?thesis by (auto simp: slice0_def)
qed

lemma filter_indexed_subset: "v \<in> set (filter_indexed p xs) \<Longrightarrow> \<exists>i. p v i"
  by (auto simp: filter_indexed_def)

section \<open>Properties of the functions of tool.ts\<close>

subsection \<open>matchAddPath\<close>

lemma take1_drop: "take (Suc 0) (drop j s) = [c] \<longleftrightarrow> char_at s j = Some c"
proof (cases "j < length s")
  case True
  then have "drop j s = s ! j # drop (Suc j) s" by (simp add: Cons_nth_drop_Suc)
  then show ?thesis using True by (simp add: char_at_def)
next
  case False
  then show ?thesis by (simp add: char_at_def)
qed

lemma in_m_seq_addpath:
  "(e', c') \<in> set (m_seq addpath_regex s i) \<longleftrightarrow>
     line_start s i \<and> \<not> holds is_percent (char_at s i)
     \<and> take 8 (drop i s) = ''addpath(''
     \<and> holds is_quote (char_at s (i + 8))
     \<and> (\<exists>j. i + 10 \<le> j \<and> j \<le> i + 9 + run_length non_space s (i + 9)
            \<and> holds is_quote (char_at s j) \<and> char_at s (Suc j) = Some CHR 0x29
            \<and> e' = j + 2 \<and> c' = [substring s (i + 9) j])"
proof -
  have eq: "m_seq addpath_regex s i =
     (if line_start s i then
        if holds is_percent (char_at s i) then []
        else if take 8 (drop i s) = ''addpath('' then
          if holds is_quote (char_at s (i + 8)) then
            concat (map (\<lambda>(j, c). map (\<lambda>(e, d). (e, substring s (i + 9) j # c @ d))
                      (if holds is_quote (char_at s j) then
                         if take 1 (drop (Suc j) s) = [CHR 0x29] then [(j + 2, [])] else []
                       else []))
                   (map (\<lambda>e. (e, [])) (rev [i + 10 ..< Suc (i + 9 + run_length non_space s (i + 9))])))
          else []
        else []
      else [])"
  proof -
    have l8: "length ''addpath('' = 8" and l1: "length [CHR 0x29] = 1" by simp_all
    have a: "Suc (i + 8) = i + 9" "Suc (i + 9) = i + 10" "\<And>j. Suc j + 1 = j + 2"
      "\<And>n. Suc (i + 10 + n) = Suc (i + 10) + n" "\<And>n. Suc (i + 10) + n = i + 10 + Suc n"
      by simp_all
    show ?thesis
      apply (simp only: addpath_regex_def m_seq_Bol m_seq_NotAhead m_seq_Lit m_seq_One m_seq_Grp
          m_seq_Plus m_seq_Nil)
      apply (simp only: l8 l1 a)
      done
  qed
  have "m_seq addpath_regex s i =
     (if line_start s i \<and> \<not> holds is_percent (char_at s i)
         \<and> take 8 (drop i s) = ''addpath('' \<and> holds is_quote (char_at s (i + 8))
      then concat (map (\<lambda>j. if holds is_quote (char_at s j) \<and> char_at s (Suc j) = Some CHR 0x29
                            then [(j + 2, [substring s (i + 9) j])] else [])
                       (rev [i + 10 ..< Suc (i + 9 + run_length non_space s (i + 9))]))
      else [])"
  proof -
    have inner: "map (\<lambda>(e, d). (e, t # d)) (if A then if B then [(x, [])] else [] else [])
        = (if A \<and> B then [(x, [t])] else [])" for A B x and t :: string
      by simp
    from eq show ?thesis
      by (simp add: take1_drop comp_def inner del: upt_Suc cong: if_cong)
  qed
  then show ?thesis
    by (auto split: if_splits)
qed

lemma run_length_ge:
  "n \<le> run_length P s j \<longleftrightarrow> (\<forall>k<n. holds P (char_at s (j + k)))"
proof
  assume le: "n \<le> run_length P s j"
  show "\<forall>k<n. holds P (char_at s (j + k))"
  proof (intro allI impI)
    fix k assume "k < n"
    with le have "k < run_length P s j" by simp
    from run_length_nth [OF this] show "holds P (char_at s (j + k))"
      by (simp add: char_at_def)
  qed
next
  assume all: "\<forall>k<n. holds P (char_at s (j + k))"
  show "n \<le> run_length P s j"
  proof (rule ccontr)
    assume "\<not> n \<le> run_length P s j"
    then have "run_length P s j < n" by simp
    with all have "holds P (char_at s (j + run_length P s j))" by blast
    with run_length_end [of P s j] show False by simp
  qed
qed

lemma addpath_first_char:
  assumes "take 8 (drop i s) = ''addpath(''"
  shows "\<not> holds is_percent (char_at s i)"
proof -
  have l: "length ''addpath('' = 8" by simp
  have t: "take (length ''addpath('') (drop i s) = ''addpath(''"
    unfolding l by (rule assms)
  have "0 < length ''addpath(''" by simp
  from take_drop_eq_nth [OF t this] show ?thesis
    by (simp add: char_at_def is_percent_def)
qed

lemma match_at_addpath_iff:
  "match_at addpath_regex s i \<noteq> None \<longleftrightarrow> line_start s i \<and> directive_at s i"
proof -
  have "match_at addpath_regex s i \<noteq> None \<longleftrightarrow> (\<exists>e c. (e, c) \<in> set (m_seq addpath_regex s i))"
    by (cases "m_seq addpath_regex s i") (auto simp: match_at_def)
  also have "\<dots> \<longleftrightarrow> line_start s i
     \<and> take 8 (drop i s) = ''addpath(''
     \<and> holds is_quote (char_at s (i + 8))
     \<and> (\<exists>j. i + 10 \<le> j \<and> j \<le> i + 9 + run_length non_space s (i + 9)
            \<and> holds is_quote (char_at s j) \<and> char_at s (Suc j) = Some CHR 0x29)"
    using addpath_first_char [of i s] by (auto simp: in_m_seq_addpath)
  also have "(\<exists>j. i + 10 \<le> j \<and> j \<le> i + 9 + run_length non_space s (i + 9)
            \<and> holds is_quote (char_at s j) \<and> char_at s (Suc j) = Some CHR 0x29)
      \<longleftrightarrow> (\<exists>n. 0 < n \<and> n \<le> run_length non_space s (i + 9)
            \<and> holds is_quote (char_at s (i + 9 + n)) \<and> char_at s (i + 10 + n) = Some CHR 0x29)"
  proof
    assume "\<exists>j. i + 10 \<le> j \<and> j \<le> i + 9 + run_length non_space s (i + 9)
            \<and> holds is_quote (char_at s j) \<and> char_at s (Suc j) = Some CHR 0x29"
    then obtain j where j: "i + 10 \<le> j" "j \<le> i + 9 + run_length non_space s (i + 9)"
      "holds is_quote (char_at s j)" "char_at s (Suc j) = Some CHR 0x29" by blast
    have e: "i + 9 + (j - (i + 9)) = j" "i + 10 + (j - (i + 9)) = Suc j" using j(1) by simp_all
    have "0 < j - (i + 9)" "j - (i + 9) \<le> run_length non_space s (i + 9)"
      using j(1,2) by simp_all
    moreover have "holds is_quote (char_at s (i + 9 + (j - (i + 9))))"
      "char_at s (i + 10 + (j - (i + 9))) = Some CHR 0x29"
      by (simp_all only: e j(3,4))
    ultimately show "\<exists>n. 0 < n \<and> n \<le> run_length non_space s (i + 9)
            \<and> holds is_quote (char_at s (i + 9 + n)) \<and> char_at s (i + 10 + n) = Some CHR 0x29"
      by blast
  next
    assume "\<exists>n. 0 < n \<and> n \<le> run_length non_space s (i + 9)
            \<and> holds is_quote (char_at s (i + 9 + n)) \<and> char_at s (i + 10 + n) = Some CHR 0x29"
    then obtain n where n: "0 < n" "n \<le> run_length non_space s (i + 9)"
      "holds is_quote (char_at s (i + 9 + n))" "char_at s (i + 10 + n) = Some CHR 0x29" by blast
    have e: "Suc (i + 9 + n) = i + 10 + n" by simp
    have "i + 10 \<le> i + 9 + n" "i + 9 + n \<le> i + 9 + run_length non_space s (i + 9)"
      using n(1,2) by simp_all
    moreover have "char_at s (Suc (i + 9 + n)) = Some CHR 0x29"
      by (simp only: e n(4))
    ultimately show "\<exists>j. i + 10 \<le> j \<and> j \<le> i + 9 + run_length non_space s (i + 9)
            \<and> holds is_quote (char_at s j) \<and> char_at s (Suc j) = Some CHR 0x29"
      using n(3) by blast
  qed
  finally show ?thesis
    by (simp only: directive_at_def run_length_ge substring_def) auto
qed

lemma quote_not_term: "is_quote c \<Longrightarrow> \<not> is_line_term c"
  by (auto simp: is_quote_def is_line_term_def)

lemma non_space_not_term: "non_space c \<Longrightarrow> \<not> is_line_term c"
  by (auto simp: non_space_def is_space_def is_line_term_def)

lemma addpath_match_no_terminator:
  assumes "(e', c') \<in> set (m_seq addpath_regex s k)" and "k \<le> p" and "p < e'"
  shows "\<not> holds is_line_term (char_at s p)"
proof -
  from assms(1) obtain j where
    lit: "take 8 (drop k s) = ''addpath(''"
    and q1: "holds is_quote (char_at s (k + 8))"
    and j: "k + 10 \<le> j" "j \<le> k + 9 + run_length non_space s (k + 9)"
    and q2: "holds is_quote (char_at s j)"
    and cl: "char_at s (Suc j) = Some CHR 0x29"
    and e: "e' = j + 2"
    unfolding in_m_seq_addpath by blast
  consider "p < k + 8" | "p = k + 8" | "k + 9 \<le> p \<and> p < j" | "p = j" | "p = Suc j"
    using assms(2,3) e by linarith
  then show ?thesis
  proof cases
    case 1
    have l: "length ''addpath('' = 8" by simp
    have t: "take (length ''addpath('') (drop k s) = ''addpath(''"
      unfolding l by (rule lit)
    have m: "p - k < length ''addpath(''" using 1 assms(2) by simp
    from take_drop_eq_nth [OF t m] assms(2)
    have b: "p < length s" and c: "s ! p = ''addpath('' ! (p - k)" by simp_all
    have la: "list_all (\<lambda>c. \<not> is_line_term c) ''addpath(''"
      by (simp add: is_line_term_def)
    have "\<not> is_line_term (''addpath('' ! (p - k))"
      by (rule la [unfolded list_all_length, rule_format, OF m])
    then show ?thesis using b c by (simp add: char_at_def)
  next
    case 2
    then show ?thesis using q1 quote_not_term
      by (cases "char_at s p") auto
  next
    case 3
    then have "p - (k + 9) < run_length non_space s (k + 9)" using j(2) by linarith
    from run_length_nth [OF this] 3
    have "p < length s" "non_space (s ! p)" by auto
    then show ?thesis using non_space_not_term by (simp add: char_at_def)
  next
    case 4
    then show ?thesis using q2 quote_not_term
      by (cases "char_at s p") auto
  next
    case 5
    then show ?thesis using cl by (simp add: is_line_term_def)
  qed
qed

lemma directive_at_bound: "directive_at s i \<Longrightarrow> i < length s"
  by (auto simp: directive_at_def char_at_def split: if_splits)

lemma addpath_loop_indices:
  "i \<in> m_index ` set (exec_loop addpath_regex s 0) \<longleftrightarrow> line_start s i \<and> directive_at s i"
proof
  assume "i \<in> m_index ` set (exec_loop addpath_regex s 0)"
  then obtain m where m: "m \<in> set (exec_loop addpath_regex s 0)" and i: "i = m_index m"
    by blast
  from exec_loop_sound [OF m] have "match_at addpath_regex s (m_index m) \<noteq> None" by auto
  then show "line_start s i \<and> directive_at s i"
    using i by (simp only: match_at_addpath_iff)
next
  assume a: "line_start s i \<and> directive_at s i"
  then have "match_at addpath_regex s i \<noteq> None" by (simp only: match_at_addpath_iff)
  then obtain e c where ma: "match_at addpath_regex s i = Some (e, c)" by auto
  have "\<lparr>m_index = i, m_groups = substring s i e # c\<rparr> \<in> set (exec_loop addpath_regex s 0)"
  proof (rule exec_loop_complete [OF ma])
    show "0 \<le> i" by simp
    show "i \<le> length s" using a directive_at_bound [of s i] by simp
    fix k e' c'
    assume k: "k < i" and mk: "match_at addpath_regex s k = Some (e', c')"
    from mk have mem: "(e', c') \<in> set (m_seq addpath_regex s k)"
      by (auto simp: match_at_def split: list.splits)
    show "e' \<le> i"
    proof (rule ccontr)
      assume "\<not> e' \<le> i"
      then have "k \<le> i - 1" "i - 1 < e'" using k by simp_all
      from addpath_match_no_terminator [OF mem this]
      have "\<not> holds is_line_term (char_at s (i - 1))" .
      moreover from a k have "holds is_line_term (char_before s i)"
        by (simp add: line_start_def)
      ultimately show False using k by (simp add: char_before_def)
    qed
  qed
  then show "i \<in> m_index ` set (exec_loop addpath_regex s 0)" by force
qed

lemma matchAddPath_empty_iff:
  "matchAddPath s \<noteq> [] \<longleftrightarrow> exec_loop addpath_regex s 0 \<noteq> []"
proof -
  have "m_groups m \<noteq> []" if "m \<in> set (exec_loop addpath_regex s 0)" for m
    using exec_loop_sound [OF that] by auto
  then show ?thesis
    by (cases "exec_loop addpath_regex s 0") (auto simp: matchAddPath_def)
qed

lemma addpath_char0:
  assumes "take 8 (drop i s) = ''addpath(''"
  shows "char_at s i = Some CHR ''a''"
proof -
  have l: "length ''addpath('' = 8" by simp
  have t: "take (length ''addpath('') (drop i s) = ''addpath(''"
    unfolding l by (rule assms)
  have "0 < length ''addpath(''" by simp
  from take_drop_eq_nth [OF t this] show ?thesis
    by (simp add: char_at_def)
qed

lemma space_not_directive:
  assumes "holds is_space (char_at s i)"
  shows "\<not> directive_at s i"
proof
  assume "directive_at s i"
  then have "take 8 (drop i s) = ''addpath(''" by (auto simp: directive_at_def substring_def)
  from addpath_char0 [OF this] assms show False
    by (simp add: is_space_def)
qed

lemma percent_not_directive:
  assumes "holds is_percent (char_at s i)"
  shows "\<not> directive_at s i"
proof
  assume "directive_at s i"
  then have "take 8 (drop i s) = ''addpath(''" by (auto simp: directive_at_def substring_def)
  from addpath_first_char [OF this] assms show False by simp
qed

text \<open>
  C9, as stated, fails on the one-line content \<^verbatim>\<open>  addpath('lib')\<close>: the line consists of
  whitespace followed by a well-formed directive, and \<open>matchAddPath\<close> returns nothing.
\<close>

theorem C9_leading_whitespace_not_ignored:
  "matchAddPath ''  addpath('lib')'' = []"
  by code_simp

text \<open>
  C9, amended. The loop of \<open>matchAddPath\<close> finds a match at index \<open>i\<close> of the content if and
  only if \<open>i\<close> is the start of a line (the start of the content or the index after a line
  terminator) and the text reads there, with nothing skipped, \<^verbatim>\<open>addpath(\<close>, a quote, a
  non-empty path without whitespace, a quote and \<^verbatim>\<open>)\<close>; \<open>matchAddPath\<close> returns something
  exactly when the content has such a line. So no match starts at a comment marker, and
  none starts at a whitespace character: leading whitespace is not ignored.
\<close>

theorem C9_directive_at_line_start:
  "(i \<in> m_index ` set (exec_loop addpath_regex content 0)
      \<longleftrightarrow> line_start content i \<and> directive_at content i)
   \<and> (matchAddPath content \<noteq> [] \<longleftrightarrow> (\<exists>j. line_start content j \<and> directive_at content j))
   \<and> (holds is_percent (char_at content i)
        \<longrightarrow> i \<notin> m_index ` set (exec_loop addpath_regex content 0))
   \<and> (holds is_space (char_at content i)
        \<longrightarrow> i \<notin> m_index ` set (exec_loop addpath_regex content 0))"
proof -
  have "matchAddPath content \<noteq> [] \<longleftrightarrow> (\<exists>j. j \<in> m_index ` set (exec_loop addpath_regex content 0))"
    by (cases "exec_loop addpath_regex content 0") (auto simp: matchAddPath_empty_iff)
  then have "matchAddPath content \<noteq> [] \<longleftrightarrow> (\<exists>j. line_start content j \<and> directive_at content j)"
    by (simp only: addpath_loop_indices)
  then show ?thesis
    using percent_not_directive [of content i] space_not_directive [of content i]
    by (simp only: addpath_loop_indices) blast
qed

theorem C9_directive_at_line_start_witness:
  "holds is_percent (char_at (''%addpath('a')'' @ [CHR 0x0A] @ '' addpath('b')'' @ [CHR 0x0A] @ ''addpath('c')'') 0)
   \<and> 0 \<notin> m_index ` set (exec_loop addpath_regex
           (''%addpath('a')'' @ [CHR 0x0A] @ '' addpath('b')'' @ [CHR 0x0A] @ ''addpath('c')'') 0)
   \<and> holds is_space (char_at (''%addpath('a')'' @ [CHR 0x0A] @ '' addpath('b')'' @ [CHR 0x0A] @ ''addpath('c')'') 14)
   \<and> 14 \<notin> m_index ` set (exec_loop addpath_regex
           (''%addpath('a')'' @ [CHR 0x0A] @ '' addpath('b')'' @ [CHR 0x0A] @ ''addpath('c')'') 0)
   \<and> line_start (''%addpath('a')'' @ [CHR 0x0A] @ '' addpath('b')'' @ [CHR 0x0A] @ ''addpath('c')'') 28
   \<and> directive_at (''%addpath('a')'' @ [CHR 0x0A] @ '' addpath('b')'' @ [CHR 0x0A] @ ''addpath('c')'') 28
   \<and> matchAddPath (''%addpath('a')'' @ [CHR 0x0A] @ '' addpath('b')'' @ [CHR 0x0A] @ ''addpath('c')'')
       = [''c'', ''c'']"
proof -
  let ?c = "''%addpath('a')'' @ [CHR 0x0A] @ '' addpath('b')'' @ [CHR 0x0A] @ ''addpath('c')''"
  have p: "holds is_percent (char_at ?c 0)" by code_simp
  have s: "holds is_space (char_at ?c 14)" by code_simp
  have m: "map m_index (exec_loop addpath_regex ?c 0) = [28]" by code_simp
  have r: "matchAddPath ?c = [''c'', ''c'']" by code_simp
  have "28 \<in> set (map m_index (exec_loop addpath_regex ?c 0))" by (simp only: m) simp
  then have i: "28 \<in> m_index ` set (exec_loop addpath_regex ?c 0)" by simp
  note t0 = C9_directive_at_line_start [of 0 ?c]
  note t14 = C9_directive_at_line_start [of 14 ?c]
  note t28 = C9_directive_at_line_start [of 28 ?c]
  from t0 p have a: "0 \<notin> m_index ` set (exec_loop addpath_regex ?c 0)" by blast
  from t14 s have b: "14 \<notin> m_index ` set (exec_loop addpath_regex ?c 0)" by blast
  from t28 i have c: "line_start ?c 28 \<and> directive_at ?c 28" by blast
  show ?thesis
    by (intro conjI p a s b conjunct1 [OF c] conjunct2 [OF c] r)
qed

lemma addpath_match_groups:
  assumes "m \<in> set (exec_loop addpath_regex s 0)"
  shows "map (\<lambda>_. group m 1) (m_groups m) = [group m 1, group m 1]"
proof -
  from exec_loop_sound [OF assms] obtain c where
    ma: "match_at addpath_regex s (m_index m) = Some (m_end m, c)"
    and g: "m_groups m = substring s (m_index m) (m_end m) # c" by blast
  from ma have "(m_end m, c) \<in> set (m_seq addpath_regex s (m_index m))"
    by (auto simp: match_at_def split: list.splits)
  then obtain p where "c = [p]" unfolding in_m_seq_addpath by blast
  with g show ?thesis by simp
qed

text \<open>
  C4. On the one-line content \<^verbatim>\<open>addpath('lib')\<close> the single directive contributes its
  path twice: \<open>matchAddPath\<close> returns \<^verbatim>\<open>["lib", "lib"]\<close>, not the one entry per directive
  line that the claim states. This happens for every content: each match of the loop
  contributes its path two times in a row, once for each element of the match array.
\<close>

theorem C4_each_path_pushed_twice:
  "matchAddPath ''addpath('lib')'' = [''lib'', ''lib'']
   \<and> matchAddPath content
       = concat (map (\<lambda>m. [group m 1, group m 1]) (exec_loop addpath_regex content 0))"
proof -
  have "map (\<lambda>m. map (\<lambda>_. group m 1) (m_groups m)) (exec_loop addpath_regex content 0)
      = map (\<lambda>m. [group m 1, group m 1]) (exec_loop addpath_regex content 0)"
    by (rule map_cong [OF refl]) (rule addpath_match_groups)
  then have "matchAddPath content
       = concat (map (\<lambda>m. [group m 1, group m 1]) (exec_loop addpath_regex content 0))"
    by (simp only: matchAddPath_def)
  moreover have "matchAddPath ''addpath('lib')'' = [''lib'', ''lib'']"
    by code_simp
  ultimately show ?thesis by blast
qed

subsection \<open>getCurrentFileVariables\<close>

lemma match_at_variable:
  "match_at variable_regex s i =
     (if run_start s i
      then Some (i + run_length is_word s i, [takeWhile is_word (drop i s)])
      else None)"
proof -
  let ?n = "run_length is_word s i"
  have step: "m_seq variable_regex s i =
      (if word_boundary s i
       then concat (map (\<lambda>(j, c). map (\<lambda>(e, d). (e, substring s i j # c @ d))
                                      (if word_boundary s j then [(j, [])] else []))
                        (m_seq [Plus is_word] s i))
       else [])"
    by (simp only: variable_regex_def m_seq_WordB m_seq_Grp m_seq_Nil)
  show ?thesis
  proof (cases "0 < ?n")
    case False
    then have n: "?n = 0" by simp
    have "\<not> run_start s i"
      using False run_length_pos [of is_word s i] by (simp add: run_start_def)
    moreover have "m_seq [Plus is_word] s i = []"
      by (simp only: m_seq_Plus n) simp
    then have "m_seq variable_regex s i = []"
      by (simp only: step) simp
    ultimately show ?thesis by (simp add: match_at_def)
  next
    case True
    have at: "holds is_word (char_at s i)" using True by (simp add: run_length_pos)
    have wb: "word_boundary s i = run_start s i"
      using at by (auto simp: word_boundary_def run_start_def)
    have "[Suc i ..< Suc (i + ?n)] = [Suc i ..< i + ?n] @ [i + ?n]"
      using True by simp
    then have first: "m_seq [Plus is_word] s i
        = (i + ?n, []) # map (\<lambda>e. (e, [])) (rev [Suc i ..< i + ?n])"
      by (simp only: m_seq_Plus) simp
    have "\<exists>rest. m_seq variable_regex s i =
        (if run_start s i then (i + ?n, [substring s i (i + ?n)]) # rest else [])"
      using word_boundary_run_end [OF True]
      by (simp only: step first wb) simp
    then have "match_at variable_regex s i =
        (if run_start s i then Some (i + ?n, [substring s i (i + ?n)]) else None)"
      by (auto simp: match_at_def)
    then show ?thesis by (simp only: substring_run)
  qed
qed

lemma set_add_fold: "set (foldl (\<lambda>res g. set_add g res) acc gs) = set acc \<union> set gs"
  by (induction gs arbitrary: acc) (auto simp: set_add_def)

lemma set_collect_fold:
  "set (foldl (\<lambda>res m. foldl (\<lambda>res g. set_add g res) res (m_groups m)) acc ms)
     = set acc \<union> (\<Union>m \<in> set ms. set (m_groups m))"
  by (induction ms arbitrary: acc) (auto simp: set_add_fold)

lemma set_collect: "set (collect ms) = (\<Union>m \<in> set ms. set (m_groups m))"
  by (simp add: collect_def set_collect_fold)

lemma run_start_bound: "run_start s i \<Longrightarrow> i < length s"
  by (simp add: run_start_def char_at_def split: if_splits)

lemma set_maximal_runs:
  "set (maximal_runs s) = {t. \<exists>i. run_start s i \<and> t = takeWhile is_word (drop i s)}"
  using run_start_bound by (auto simp: maximal_runs_def)

lemma variable_matches_disjoint:
  assumes "run_start s i" and "k < i" and "match_at variable_regex s k = Some (e, c)"
  shows "e \<le> i"
proof (rule ccontr)
  assume "\<not> e \<le> i"
  moreover from assms(3) have e: "e = k + run_length is_word s k"
    by (simp add: match_at_variable split: if_splits)
  ultimately have inside: "i - 1 - k < run_length is_word s k" using assms(2) by simp
  from run_length_nth [OF inside] assms(2)
  have "i - 1 < length s" "is_word (s ! (i - 1))" by simp_all
  then have "holds is_word (char_before s i)"
    using assms(2) by (simp add: char_before_def char_at_def)
  then show False using assms(1) by (simp add: run_start_def)
qed

lemma variable_loop_tokens:
  "(\<Union>m \<in> set (exec_loop variable_regex s 0). set (m_groups m))
     = {t. \<exists>i. run_start s i \<and> t = takeWhile is_word (drop i s)}"
proof (rule set_eqI, rule iffI)
  fix t
  assume "t \<in> (\<Union>m \<in> set (exec_loop variable_regex s 0). set (m_groups m))"
  then obtain m where m: "m \<in> set (exec_loop variable_regex s 0)" and t: "t \<in> set (m_groups m)"
    by blast
  from exec_loop_sound [OF m] obtain c where
    ma: "match_at variable_regex s (m_index m) = Some (m_end m, c)"
    and g: "m_groups m = substring s (m_index m) (m_end m) # c" by blast
  from ma have rs: "run_start s (m_index m)"
    and e: "m_end m = m_index m + run_length is_word s (m_index m)"
    and c: "c = [takeWhile is_word (drop (m_index m) s)]"
    by (simp_all add: match_at_variable split: if_splits)
  from g e c have "m_groups m = [takeWhile is_word (drop (m_index m) s),
                                 takeWhile is_word (drop (m_index m) s)]"
    by (simp add: substring_run)
  with t rs show "t \<in> {t. \<exists>i. run_start s i \<and> t = takeWhile is_word (drop i s)}"
    by auto
next
  fix t
  assume "t \<in> {t. \<exists>i. run_start s i \<and> t = takeWhile is_word (drop i s)}"
  then obtain i where rs: "run_start s i" and t: "t = takeWhile is_word (drop i s)" by blast
  have ma: "match_at variable_regex s i = Some (i + run_length is_word s i, [t])"
    using rs t by (simp add: match_at_variable)
  have "\<lparr>m_index = i, m_groups = substring s i (i + run_length is_word s i) # [t]\<rparr>
          \<in> set (exec_loop variable_regex s 0)"
  proof (rule exec_loop_complete [OF ma])
    show "0 \<le> i" by simp
    show "i \<le> length s" using run_start_bound [OF rs] by simp
    show "e' \<le> i" if "k < i" "match_at variable_regex s k = Some (e', c')" for k e' c'
      using variable_matches_disjoint [OF rs that] .
  qed
  then show "t \<in> (\<Union>m \<in> set (exec_loop variable_regex s 0). set (m_groups m))"
    by force
qed

lemma word_not_space: "is_word c \<Longrightarrow> non_space c"
  by (auto simp: is_word_def is_alpha_def is_digit_def is_space_def non_space_def)

lemma match_at_keep:
  "match_at keep_regex v k \<noteq> None
     \<longleftrightarrow> holds non_digit (char_at v k) \<and> holds non_space (char_at v (Suc k))"
proof -
  have "m_seq keep_regex v k =
      (if holds non_digit (char_at v k)
       then map (\<lambda>e. (e, [])) (rev [Suc (Suc k) ..< Suc (Suc k + run_length non_space v (Suc k))])
       else [])"
    by (simp only: keep_regex_def m_seq_One m_seq_Plus)
  moreover have "0 < run_length non_space v (Suc k) \<longleftrightarrow> holds non_space (char_at v (Suc k))"
    by (rule run_length_pos)
  ultimately show ?thesis
    by (auto simp: match_at_def split: list.splits)
qed

lemma keep_test:
  "search keep_regex v 0 \<noteq> None
     \<longleftrightarrow> (\<exists>k. Suc k < length v \<and> non_digit (v ! k) \<and> non_space (v ! Suc k))"
proof -
  have "search keep_regex v 0 \<noteq> None
      \<longleftrightarrow> (\<exists>k. k \<le> length v \<and> match_at keep_regex v k \<noteq> None)"
    by (simp add: search_None_iff)
  also have "\<dots> \<longleftrightarrow> (\<exists>k. Suc k < length v \<and> non_digit (v ! k) \<and> non_space (v ! Suc k))"
    by (simp only: match_at_keep) (auto simp: char_at_def split: if_splits)
  finally show ?thesis .
qed

lemma keep_test_token:
  assumes "list_all is_word t"
  shows "search keep_regex t 0 \<noteq> None \<longleftrightarrow> early_non_digit t"
proof -
  have ns: "non_space (t ! k)" if "k < length t" for k
    using assms that by (simp add: list_all_length word_not_space)
  have bl: "k < length (butlast t) \<longleftrightarrow> Suc k < length t" for k
    by (simp add: less_diff_conv)
  have "early_non_digit t \<longleftrightarrow> (\<exists>k. k < length (butlast t) \<and> non_digit (butlast t ! k))"
    by (simp add: early_non_digit_def list_ex_length del: length_butlast)
  also have "\<dots> \<longleftrightarrow> (\<exists>k. k < length (butlast t) \<and> non_digit (t ! k))"
    using nth_butlast [of _ t] by (auto simp del: length_butlast)
  also have "\<dots> \<longleftrightarrow> (\<exists>k. Suc k < length t \<and> non_digit (t ! k))"
    by (simp only: bl)
  also have "\<dots> \<longleftrightarrow> (\<exists>k. Suc k < length t \<and> non_digit (t ! k) \<and> non_space (t ! Suc k))"
    using ns by auto
  finally show ?thesis by (simp only: keep_test)
qed

lemma maximal_runs_words: "t \<in> set (maximal_runs s) \<Longrightarrow> list_all is_word t"
  by (auto simp: maximal_runs_def list_all_iff dest: set_takeWhileD)

lemma x_not_returned: "getCurrentFileVariables ''x = 1'' = []"
  by code_simp

lemma x_is_run: "maximal_runs ''x = 1'' = [''x'', ''1'']"
  by code_simp

text \<open>
  C5, as stated, fails on the content \<^verbatim>\<open>x = 1\<close>: \<^verbatim>\<open>x\<close> is a maximal run of word characters
  of that content, it does not start with a digit and it is no reserved keyword, and yet
  \<open>getCurrentFileVariables\<close> does not return it.
\<close>

theorem C5_single_character_token_dropped:
  "''x'' \<in> set (maximal_runs ''x = 1'')
   \<and> \<not> is_digit (hd ''x'')
   \<and> ''x'' \<notin> set keywordSet
   \<and> ''x'' \<notin> set (getCurrentFileVariables ''x = 1'')"
  by (simp add: x_not_returned x_is_run is_digit_def keywordSet_def)

text \<open>
  C5, amended. For every content, \<open>getCurrentFileVariables\<close> returns exactly the maximal
  runs of word characters of the content that have a non-digit character somewhere before
  their last character and that are not reserved keywords. So the tokens left out are the
  reserved keywords and the tokens whose characters before the last one are all digits,
  which includes every token of one character; a reserved keyword is never returned.
\<close>

theorem C5_identifiers_returned:
  "set (getCurrentFileVariables content)
     = {t \<in> set (maximal_runs content). early_non_digit t \<and> t \<notin> set keywordSet}
   \<and> set (getCurrentFileVariables content) \<inter> set keywordSet = {}"
proof -
  have tokens: "set (collect (exec_loop variable_regex content 0)) = set (maximal_runs content)"
    by (simp only: set_collect variable_loop_tokens set_maximal_runs)
  have "set (getCurrentFileVariables content)
      = {t \<in> set (maximal_runs content). search keep_regex t 0 \<noteq> None \<and> t \<notin> set keywordSet}"
    unfolding getCurrentFileVariables_def set_filter tokens by simp
  also have "\<dots> = {t \<in> set (maximal_runs content). early_non_digit t \<and> t \<notin> set keywordSet}"
    using keep_test_token [OF maximal_runs_words] by blast
  finally have eq: "set (getCurrentFileVariables content)
     = {t \<in> set (maximal_runs content). early_non_digit t \<and> t \<notin> set keywordSet}" .
  then show ?thesis by blast
qed

subsection \<open>getRowCol, case 1: an assignment\<close>

text \<open>
  C2. Whenever the assignment pattern (a word boundary, the word, optional whitespace,
  \<^verbatim>\<open>=\<close>) matches in the content, \<open>getRowCol\<close> returns the position whose row is the number
  of line feeds before the start of the match, and whose column is the number of
  characters between the last of these line feeds (or the start of the content) and the
  start of the match, that is the length of the part of the match's own line that lies
  before the match.
\<close>

theorem C2_assignment_position:
  assumes "plain word"
    and "search (assign_regex word) content 0 = Some res"
  shows "getRowCol content word =
           Some \<lparr>row = count_list (take (m_index res) content) CHR 0x0A,
                 col = length (takeWhile (\<lambda>c. c \<noteq> CHR 0x0A)
                                 (rev (take (m_index res) content)))\<rparr>"
proof -
  let ?rows = "split_on CHR 0x0A (take (m_index res) content)"
  have "?rows ! (length ?rows - 1) = last ?rows"
    by (simp add: last_conv_nth)
  then show ?thesis
    using assms(2)
    by (simp add: getRowCol_def Let_def slice0_nat length_split_on last_split_on)
qed

theorem C2_assignment_position_witness:
  "plain ''bb''
   \<and> search (assign_regex ''bb'') (''x = 1'' @ [CHR 0x0A] @ ''  bb = 2'') 0
       = Some \<lparr>m_index = 8, m_groups = [''bb ='']\<rparr>
   \<and> getRowCol (''x = 1'' @ [CHR 0x0A] @ ''  bb = 2'') ''bb'' = Some \<lparr>row = 1, col = 2\<rparr>"
proof -
  have h1: "plain ''bb''" by code_simp
  have h2: "search (assign_regex ''bb'') (''x = 1'' @ [CHR 0x0A] @ ''  bb = 2'') 0
              = Some \<lparr>m_index = 8, m_groups = [''bb ='']\<rparr>"
    by code_simp
  show ?thesis
    using h1 h2 C2_assignment_position [OF h1 h2] by simp
qed

subsection \<open>getRowCol, case 2: the function line\<close>

lemma contains_prefix: "take (length t) s = t \<Longrightarrow> contains s t"
  by (cases s) auto

lemma contains_Cons: "contains s t \<Longrightarrow> contains (c # s) t"
  by simp

lemma prefix_first_line:
  assumes "take (length t) s = t" and "d \<notin> set t"
  shows "take (length t) (hd (split_on d s)) = t"
proof -
  have s: "s = t @ drop (length t) s"
    using assms(1) append_take_drop_id [of "length t" s] by simp
  have "takeWhile (\<lambda>c. c \<noteq> d) (t @ drop (length t) s)
          = t @ takeWhile (\<lambda>c. c \<noteq> d) (drop (length t) s)"
    using assms(2) by (simp add: takeWhile_append)
  then have "hd (split_on d s) = t @ takeWhile (\<lambda>c. c \<noteq> d) (drop (length t) s)"
    using s by (simp add: hd_split_on)
  then show ?thesis by simp
qed

lemma contains_some_line:
  assumes "d \<notin> set t"
  shows "contains s t \<Longrightarrow> \<exists>l \<in> set (split_on d s). contains l t"
proof (induction s)
  case Nil
  then show ?case by simp
next
  case (Cons c cs)
  from Cons.prems have "take (length t) (c # cs) = t \<or> contains cs t" by simp
  then show ?case
  proof
    assume "take (length t) (c # cs) = t"
    from prefix_first_line [OF this assms]
    have "contains (hd (split_on d (c # cs))) t" by (rule contains_prefix)
    moreover have "hd (split_on d (c # cs)) \<in> set (split_on d (c # cs))"
      by (rule hd_in_set) simp
    ultimately show ?thesis by blast
  next
    assume "contains cs t"
    from Cons.IH [OF this] obtain l where l: "l \<in> set (split_on d cs)" and c: "contains l t"
      by blast
    show ?thesis
    proof (cases "c = d")
      case True
      then show ?thesis using l c by auto
    next
      case False
      from l have "l = hd (split_on d cs) \<or> l \<in> set (tl (split_on d cs))"
        by (cases "split_on d cs") auto
      then show ?thesis
      proof
        assume "l = hd (split_on d cs)"
        then have "contains (c # hd (split_on d cs)) t" using c by simp
        then show ?thesis using False by auto
      next
        assume "l \<in> set (tl (split_on d cs))"
        then show ?thesis using False c by auto
      qed
    qed
  qed
qed

lemma function_line_first:
  "function_line ls n word =
     (if length (takeWhile (\<lambda>l. \<not> contains l FUNCTION_PART) ls) < length ls
      then (case search (single_regex word)
                   (ls ! length (takeWhile (\<lambda>l. \<not> contains l FUNCTION_PART) ls)) 0 of
              None \<Rightarrow> None
            | Some m \<Rightarrow>
                if m_index m = 0 then None
                else Some \<lparr>row = n + length (takeWhile (\<lambda>l. \<not> contains l FUNCTION_PART) ls),
                           col = m_index m\<rparr>)
      else None)"
proof (induction ls arbitrary: n)
  case Nil
  show ?case by simp
next
  case (Cons l ls)
  show ?case
  proof (cases "contains l FUNCTION_PART")
    case True
    then show ?thesis by (simp split: option.splits)
  next
    case False
    then show ?thesis using Cons [of "Suc n"] by (simp split: option.splits)
  qed
qed

lemma first_marker_line_bound:
  assumes "contains content FUNCTION_PART"
  shows "first_marker_line content < length (split_on CHR 0x0A content)"
proof -
  have "CHR 0x0A \<notin> set FUNCTION_PART" by (simp add: FUNCTION_PART_def)
  from contains_some_line [OF this assms]
  obtain l where "l \<in> set (split_on CHR 0x0A content)" "contains l FUNCTION_PART" by blast
  then have ne: "takeWhile (\<lambda>l. \<not> contains l FUNCTION_PART) (split_on CHR 0x0A content)
               \<noteq> split_on CHR 0x0A content"
    by (auto simp: takeWhile_eq_all_conv)
  show ?thesis
  proof (rule ccontr)
    assume "\<not> first_marker_line content < length (split_on CHR 0x0A content)"
    then have "take (first_marker_line content) (split_on CHR 0x0A content)
                 = split_on CHR 0x0A content"
      by simp
    then show False
      using ne takeWhile_eq_take [of "\<lambda>l. \<not> contains l FUNCTION_PART" "split_on CHR 0x0A content"]
      by (simp add: first_marker_line_def)
  qed
qed

lemma f_example_assign:
  "search (assign_regex ''f'')
     (''function y = f(x)'' @ [CHR 0x0A] @ ''  y = x*2;'' @ [CHR 0x0A] @ ''end'') 0 = None"
  by code_simp

lemma f_example_contains:
  "contains (''function y = f(x)'' @ [CHR 0x0A] @ ''  y = x*2;'' @ [CHR 0x0A] @ ''end'' @ rest)
     FUNCTION_PART"
  by (simp add: FUNCTION_PART_def)

lemma f_example_single:
  "search (single_regex ''f'') ''function y = f(x)'' 0 = Some \<lparr>m_index = 13, m_groups = [''f'']\<rparr>"
  by code_simp

lemma f_example_marker: "contains ''function y = f(x)'' FUNCTION_PART"
  by code_simp

lemma f_example_hd:
  "hd (split_on CHR 0x0A (''function y = f(x)'' @ [CHR 0x0A] @ ''  y = x*2;'' @ [CHR 0x0A] @ ''end'' @ rest))
     = ''function y = f(x)''"
  unfolding hd_split_on by simp

lemma first_marker_line_0:
  assumes "contains (hd (split_on CHR 0x0A content)) FUNCTION_PART"
  shows "first_marker_line content = 0"
    and "split_on CHR 0x0A content ! 0 = hd (split_on CHR 0x0A content)"
proof -
  obtain l ls where eq: "split_on CHR 0x0A content = l # ls"
    by (cases "split_on CHR 0x0A content") simp_all
  with assms show "first_marker_line content = 0"
    by (simp add: first_marker_line_def)
  from eq show "split_on CHR 0x0A content ! 0 = hd (split_on CHR 0x0A content)"
    by simp
qed

text \<open>
  C8. When the assignment pattern finds no match and the content contains the marker
  \<^verbatim>\<open>function \<close>, the content has a first line that contains the marker, and the result
  of \<open>getRowCol\<close> is decided by that line alone: if the whole-word pattern (a word
  boundary, the word, a word boundary) matches on it and its first match is at a non-zero
  index, the result is that line's index and that index; if there is no match, or the
  first one is at index 0, the result is absent. No later line is looked at. For every
  content that starts with
  \<^verbatim>\<open>function y = f(x)\<close>, line feed, \<^verbatim>\<open>  y = x*2;\<close>, line feed, \<^verbatim>\<open>end\<close> and in which the
  assignment pattern for \<^verbatim>\<open>f\<close> finds no match (as it finds none in these three lines
  themselves), the result for the word \<^verbatim>\<open>f\<close> is row 0, column 13.
\<close>

theorem C8_function_declaration_line:
  assumes "plain word"
    and "search (assign_regex word) content 0 = None"
    and "contains content FUNCTION_PART"
  shows "first_marker_line content < length (split_on CHR 0x0A content)
       \<and> getRowCol content word =
           (case search (single_regex word)
                   (split_on CHR 0x0A content ! first_marker_line content) 0 of
              None \<Rightarrow> None
            | Some m \<Rightarrow>
                if m_index m = 0 then None
                else Some \<lparr>row = first_marker_line content, col = m_index m\<rparr>)
       \<and> search (assign_regex ''f'')
           (''function y = f(x)'' @ [CHR 0x0A] @ ''  y = x*2;'' @ [CHR 0x0A] @ ''end'') 0 = None
       \<and> (\<forall>rest.
             search (assign_regex ''f'')
               (''function y = f(x)'' @ [CHR 0x0A] @ ''  y = x*2;'' @ [CHR 0x0A] @ ''end'' @ rest) 0
               = None \<longrightarrow>
             getRowCol (''function y = f(x)'' @ [CHR 0x0A] @ ''  y = x*2;'' @ [CHR 0x0A] @ ''end'' @ rest)
               ''f'' = Some \<lparr>row = 0, col = 13\<rparr>)"
proof -
  have general: "getRowCol c w =
           (case search (single_regex w) (split_on CHR 0x0A c ! first_marker_line c) 0 of
              None \<Rightarrow> None
            | Some m \<Rightarrow>
                if m_index m = 0 then None
                else Some \<lparr>row = first_marker_line c, col = m_index m\<rparr>)"
    if "search (assign_regex w) c 0 = None" and "contains c FUNCTION_PART" for c w
    using that first_marker_line_bound [OF that(2)]
    by (simp add: getRowCol_def function_line_first [of _ 0] first_marker_line_def
          split: option.splits)
  have "getRowCol (''function y = f(x)'' @ [CHR 0x0A] @ ''  y = x*2;'' @ [CHR 0x0A] @ ''end'' @ rest)
               ''f'' = Some \<lparr>row = 0, col = 13\<rparr>"
    if "search (assign_regex ''f'')
               (''function y = f(x)'' @ [CHR 0x0A] @ ''  y = x*2;'' @ [CHR 0x0A] @ ''end'' @ rest) 0
               = None" for rest
  proof -
    let ?c = "''function y = f(x)'' @ [CHR 0x0A] @ ''  y = x*2;'' @ [CHR 0x0A] @ ''end'' @ rest"
    have "contains (hd (split_on CHR 0x0A ?c)) FUNCTION_PART"
      using f_example_marker by (simp only: f_example_hd)
    from first_marker_line_0 [OF this]
    have l0: "first_marker_line ?c = 0" and l1: "split_on CHR 0x0A ?c ! 0 = ''function y = f(x)''"
      by (simp_all only: f_example_hd)
    show ?thesis
      unfolding general [OF that f_example_contains] l0 l1 f_example_single by simp
  qed
  then have ex: "\<forall>rest.
             search (assign_regex ''f'')
               (''function y = f(x)'' @ [CHR 0x0A] @ ''  y = x*2;'' @ [CHR 0x0A] @ ''end'' @ rest) 0
               = None \<longrightarrow>
             getRowCol (''function y = f(x)'' @ [CHR 0x0A] @ ''  y = x*2;'' @ [CHR 0x0A] @ ''end'' @ rest)
               ''f'' = Some \<lparr>row = 0, col = 13\<rparr>"
    by blast
  show ?thesis
    by (intro conjI first_marker_line_bound [OF assms(3)] general [OF assms(2,3)]
          f_example_assign ex)
qed

theorem C8_function_declaration_line_witness:
  "plain ''f''
   \<and> search (assign_regex ''f'')
       (''function y = f(x)'' @ [CHR 0x0A] @ ''  y = x*2;'' @ [CHR 0x0A] @ ''end'') 0 = None
   \<and> contains (''function y = f(x)'' @ [CHR 0x0A] @ ''  y = x*2;'' @ [CHR 0x0A] @ ''end'')
       FUNCTION_PART
   \<and> getRowCol (''function y = f(x)'' @ [CHR 0x0A] @ ''  y = x*2;'' @ [CHR 0x0A] @ ''end'') ''f''
       = Some \<lparr>row = 0, col = 13\<rparr>"
proof -
  have h1: "plain ''f''" by code_simp
  have h2: "search (assign_regex ''f'')
       (''function y = f(x)'' @ [CHR 0x0A] @ ''  y = x*2;'' @ [CHR 0x0A] @ ''end'') 0 = None"
    by code_simp
  have h3: "contains (''function y = f(x)'' @ [CHR 0x0A] @ ''  y = x*2;'' @ [CHR 0x0A] @ ''end'')
       FUNCTION_PART"
    by code_simp
  note all = C8_function_declaration_line [OF h1 h2 h3]
  note rest = conjunct2 [OF conjunct2 [OF conjunct2 [OF all]]]
  have e: "getRowCol (''function y = f(x)'' @ [CHR 0x0A] @ ''  y = x*2;'' @ [CHR 0x0A] @ ''end'') ''f''
       = Some \<lparr>row = 0, col = 13\<rparr>"
    using rest [rule_format, of "[]"] h2 by (simp only: append_Nil2)
  show ?thesis
    by (intro conjI h1 h2 h3 e)
qed

subsection \<open>getRangesByName\<close>

lemma getRangesByName_lines:
  "getRangesByName content name = occurrences_from name 0 (split_on CHR 0x0A content)"
  by (simp add: getRangesByName_def line_occurrences_def occurrences_from_def)

lemma occurrences_from_Nil [simp]: "occurrences_from name n [] = []"
  by (simp add: occurrences_from_def)

lemma occurrences_from_Cons [simp]:
  "occurrences_from name n (l # ls) = line_occurrences name n l @ occurrences_from name (Suc n) ls"
  by (simp add: occurrences_from_def)

lemma line_occurrences_sorted: "sorted_wrt occ_before (line_occurrences name i v)"
proof -
  have "sorted_wrt (\<lambda>a b. m_index a < m_index b) (exec_loop (single_regex name) v 0)"
    using exec_loop_increasing [of "single_regex name" v 0] by (simp add: sorted_wrt_map)
  then have "sorted_wrt (\<lambda>a b. occ_before \<lparr>occ_row = i, column = m_index a\<rparr>
                                           \<lparr>occ_row = i, column = m_index b\<rparr>)
               (exec_loop (single_regex name) v 0)"
    by (rule sorted_wrt_mono_rel [rotated]) (simp add: occ_before_def)
  then show ?thesis by (simp add: line_occurrences_def sorted_wrt_map)
qed

lemma line_occurrences_row: "x \<in> set (line_occurrences name i v) \<Longrightarrow> occ_row x = i"
  by (auto simp: line_occurrences_def)

lemma occurrences_from_row: "x \<in> set (occurrences_from name n ls) \<Longrightarrow> n \<le> occ_row x"
proof (induction ls arbitrary: n)
  case Nil
  then show ?case by simp
next
  case (Cons l ls)
  from Cons.prems have "x \<in> set (line_occurrences name n l) \<or> x \<in> set (occurrences_from name (Suc n) ls)"
    by simp
  then show ?case
  proof
    assume "x \<in> set (line_occurrences name n l)"
    then show ?thesis by (simp add: line_occurrences_row)
  next
    assume "x \<in> set (occurrences_from name (Suc n) ls)"
    from Cons.IH [OF this] show ?thesis by simp
  qed
qed

lemma occurrences_from_sorted: "sorted_wrt occ_before (occurrences_from name n ls)"
proof (induction ls arbitrary: n)
  case Nil
  show ?case by simp
next
  case (Cons l ls)
  have "occ_before x y"
    if "x \<in> set (line_occurrences name n l)" "y \<in> set (occurrences_from name (Suc n) ls)" for x y
    using line_occurrences_row [OF that(1)] occurrences_from_row [OF that(2)]
    by (simp add: occ_before_def)
  then show ?case
    using Cons [of "Suc n"] line_occurrences_sorted [of name n l]
    by (simp add: sorted_wrt_append)
qed

lemma match_at_single:
  "match_at (single_regex name) l j =
     (if word_boundary l j \<and> take (length name) (drop j l) = name
         \<and> word_boundary l (j + length name)
      then Some (j + length name, []) else None)"
  by (simp add: match_at_def single_regex_def)

lemma plain_nth: "plain w \<Longrightarrow> k < length w \<Longrightarrow> is_word (w ! k)"
  by (simp add: plain_def list_all_length)

lemma literal_boundaries:
  assumes "plain name" and "name \<noteq> []" and "take (length name) (drop j l) = name"
  shows "word_boundary l j = (\<not> holds is_word (char_before l j))"
    and "word_boundary l (j + length name) = (\<not> holds is_word (char_at l (j + length name)))"
proof -
  have pos: "0 < length name" using assms(2) by simp
  from take_drop_eq_nth [OF assms(3) pos] have "j < length l" "l ! j = name ! 0" by simp_all
  then have "holds is_word (char_at l j)"
    using plain_nth [OF assms(1) pos] by (simp add: char_at_def)
  then show "word_boundary l j = (\<not> holds is_word (char_before l j))"
    by (auto simp: word_boundary_def)
  have k: "length name - 1 < length name" using pos by simp
  from take_drop_eq_nth [OF assms(3) k]
  have "j + (length name - 1) < length l" "l ! (j + (length name - 1)) = name ! (length name - 1)"
    by simp_all
  moreover have "j + length name - 1 = j + (length name - 1)" using pos by arith
  ultimately have "holds is_word (char_before l (j + length name))"
    using plain_nth [OF assms(1) k] pos by (simp add: char_before_def char_at_def)
  then show "word_boundary l (j + length name) = (\<not> holds is_word (char_at l (j + length name)))"
    by (auto simp: word_boundary_def)
qed

lemma match_at_single_plain:
  assumes "plain name" and "name \<noteq> []"
  shows "match_at (single_regex name) l j =
           (if whole_word_at l j name then Some (j + length name, []) else None)"
proof (cases "take (length name) (drop j l) = name")
  case True
  from literal_boundaries [OF assms True] True show ?thesis
    by (simp add: match_at_single whole_word_at_def substring_def)
next
  case False
  then show ?thesis
    by (simp add: match_at_single whole_word_at_def substring_def)
qed

lemma whole_word_at_bound:
  assumes "name \<noteq> []" and "whole_word_at l j name"
  shows "j + length name \<le> length l"
proof -
  from assms(2) have t: "take (length name) (drop j l) = name"
    by (simp add: whole_word_at_def substring_def)
  have k: "length name - 1 < length name" using assms(1) by simp
  from take_drop_eq_nth(1) [OF t k] assms(1) show ?thesis by simp
qed

lemma whole_words_disjoint:
  assumes "plain name" and "name \<noteq> []"
    and "whole_word_at l k name" and "whole_word_at l j name" and "k < j"
  shows "k + length name \<le> j"
proof (rule ccontr)
  assume "\<not> k + length name \<le> j"
  then have inside: "j - 1 - k < length name" using assms(5) by simp
  from assms(3) have t: "take (length name) (drop k l) = name"
    by (simp add: whole_word_at_def substring_def)
  from take_drop_eq_nth [OF t inside] assms(5)
  have "j - 1 < length l" "l ! (j - 1) = name ! (j - 1 - k)" by simp_all
  then have "holds is_word (char_before l j)"
    using plain_nth [OF assms(1) inside] assms(5) by (simp add: char_before_def char_at_def)
  then show False using assms(4) by (simp add: whole_word_at_def)
qed

lemma set_line_occurrences:
  assumes "plain name" and "name \<noteq> []"
  shows "set (line_occurrences name i v) = {x. occ_row x = i \<and> whole_word_at v (column x) name}"
proof (rule set_eqI, rule iffI)
  fix x :: occurrence
  assume "x \<in> set (line_occurrences name i v)"
  then obtain m where m: "m \<in> set (exec_loop (single_regex name) v 0)"
    and x: "x = \<lparr>occ_row = i, column = m_index m\<rparr>"
    by (auto simp: line_occurrences_def)
  from exec_loop_sound [OF m] have "match_at (single_regex name) v (m_index m) \<noteq> None"
    by auto
  then have "whole_word_at v (m_index m) name"
    by (simp add: match_at_single_plain [OF assms] split: if_splits)
  then show "x \<in> {x. occ_row x = i \<and> whole_word_at v (column x) name}"
    using x by simp
next
  fix x :: occurrence
  assume "x \<in> {x. occ_row x = i \<and> whole_word_at v (column x) name}"
  then have r: "occ_row x = i" and w: "whole_word_at v (column x) name" by simp_all
  let ?j = "column x"
  have m: "match_at (single_regex name) v ?j = Some (?j + length name, [])"
    using w by (simp add: match_at_single_plain [OF assms])
  have b: "?j \<le> length v" using whole_word_at_bound [OF assms(2) w] by simp
  have "\<lparr>m_index = ?j, m_groups = substring v ?j (?j + length name) # []\<rparr>
          \<in> set (exec_loop (single_regex name) v 0)"
  proof (rule exec_loop_complete [OF m _ b])
    show "0 \<le> ?j" by simp
    fix k e' c'
    assume "k < ?j" and "match_at (single_regex name) v k = Some (e', c')"
    then have "whole_word_at v k name" and "e' = k + length name"
      by (simp_all add: match_at_single_plain [OF assms] split: if_splits)
    then show "e' \<le> ?j"
      using whole_words_disjoint [OF assms _ w \<open>k < ?j\<close>] by simp
  qed
  then have "\<lparr>occ_row = i, column = ?j\<rparr> \<in> set (line_occurrences name i v)"
    by (force simp: line_occurrences_def)
  moreover have "x = \<lparr>occ_row = i, column = ?j\<rparr>" using r by simp
  ultimately show "x \<in> set (line_occurrences name i v)" by simp
qed

lemma set_occurrences_from:
  assumes "plain name" and "name \<noteq> []"
  shows "set (occurrences_from name n ls) =
           {x. n \<le> occ_row x \<and> occ_row x - n < length ls
               \<and> whole_word_at (ls ! (occ_row x - n)) (column x) name}"
proof (induction ls arbitrary: n)
  case Nil
  show ?case by simp
next
  case (Cons l ls)
  show ?case
  proof (rule set_eqI)
    fix x :: occurrence
    have "occ_row x - n = Suc (occ_row x - Suc n)" if "Suc n \<le> occ_row x"
      using that by simp
    then show "x \<in> set (occurrences_from name n (l # ls)) \<longleftrightarrow>
          x \<in> {x. n \<le> occ_row x \<and> occ_row x - n < length (l # ls)
               \<and> whole_word_at ((l # ls) ! (occ_row x - n)) (column x) name}"
      using Cons [of "Suc n"] set_line_occurrences [OF assms, of n l]
      by (cases "occ_row x = n") auto
  qed
qed

lemma x_example:
  "getRangesByName (''x = 1'' @ [CHR 0x0A] @ ''y = x + x'') ''x''
     = [\<lparr>occ_row = 0, column = 0\<rparr>, \<lparr>occ_row = 1, column = 4\<rparr>, \<lparr>occ_row = 1, column = 8\<rparr>]"
  by code_simp

lemma xx_example: "getRangesByName ''xx + 1'' ''x'' = []"
  by code_simp

text \<open>
  C6. On the content \<^verbatim>\<open>x = 1\<close>, line feed, \<^verbatim>\<open>y = x + x\<close> and the name \<^verbatim>\<open>x\<close>,
  \<open>getRangesByName\<close> returns exactly the positions (0, 0), (1, 4), (1, 8), in this order;
  the token \<^verbatim>\<open>xx\<close> gives no match for the name \<^verbatim>\<open>x\<close>. For every content and every name
  made of word characters, the returned positions are strictly increasing in row-major
  order (by row, then by column within a row), and, when the name is not empty, they are
  exactly the whole-word occurrences of the name in the lines of the content.
\<close>

theorem C6_occurrences:
  assumes "plain name"
  shows "getRangesByName (''x = 1'' @ [CHR 0x0A] @ ''y = x + x'') ''x''
           = [\<lparr>occ_row = 0, column = 0\<rparr>, \<lparr>occ_row = 1, column = 4\<rparr>,
              \<lparr>occ_row = 1, column = 8\<rparr>]
       \<and> getRangesByName ''xx + 1'' ''x'' = []
       \<and> sorted_wrt occ_before (getRangesByName content name)
       \<and> (name \<noteq> [] \<longrightarrow>
            set (getRangesByName content name)
              = {x. occ_row x < length (split_on CHR 0x0A content)
                    \<and> whole_word_at (split_on CHR 0x0A content ! occ_row x) (column x) name})"
proof -
  have "sorted_wrt occ_before (getRangesByName content name)"
    by (simp add: getRangesByName_lines occurrences_from_sorted)
  moreover have "set (getRangesByName content name)
              = {x. occ_row x < length (split_on CHR 0x0A content)
                    \<and> whole_word_at (split_on CHR 0x0A content ! occ_row x) (column x) name}"
    if "name \<noteq> []"
    using set_occurrences_from [OF assms that, of 0 "split_on CHR 0x0A content"]
    by (simp add: getRangesByName_lines)
  ultimately show ?thesis using x_example xx_example by simp
qed

theorem C6_occurrences_witness:
  "plain ''x'' \<and> ''x'' \<noteq> []
   \<and> sorted_wrt occ_before (getRangesByName (''x = 1'' @ [CHR 0x0A] @ ''y = x + x'') ''x'')
   \<and> set (getRangesByName (''x = 1'' @ [CHR 0x0A] @ ''y = x + x'') ''x'')
       = {x. occ_row x < length (split_on CHR 0x0A (''x = 1'' @ [CHR 0x0A] @ ''y = x + x''))
             \<and> whole_word_at (split_on CHR 0x0A (''x = 1'' @ [CHR 0x0A] @ ''y = x + x'') ! occ_row x)
                               (column x) ''x''}"
proof -
  have h: "plain ''x''" by code_simp
  have n: "''x'' \<noteq> []" by simp
  from C6_occurrences [OF h, of "''x = 1'' @ [CHR 0x0A] @ ''y = x + x''"] n h
  show ?thesis by blast
qed

subsection \<open>getStructNames and getStructCompletions\<close>

lemma getStructNames_not_basename:
  "take (length fileName - 2) fileName \<notin> set (getStructNames fileName content)"
proof
  assume "take (length fileName - 2) fileName \<in> set (getStructNames fileName content)"
  then have "slice0 fileName (int (length fileName) - 2) \<in> set (getStructNames fileName content)"
    by (simp only: slice0_basename)
  then show False
    unfolding getStructNames_def Let_def
    by (auto dest!: filter_indexed_subset)
qed

lemma getStructNames_foo: "getStructNames ''foo.m'' ''foo.bar'' = []"
  by code_simp

text \<open>
  C3. For every file name and content, the file's base name (the file name without its
  last two characters) is not among the names that \<open>getStructNames\<close> returns and is not the
  name of any completion that \<open>getStructCompletions\<close> builds; for the file \<^verbatim>\<open>foo.m\<close> with
  content \<^verbatim>\<open>foo.bar\<close> no struct name is discovered at all.
\<close>

theorem C3_struct_name_never_basename:
  "take (length fileName - 2) fileName \<notin> set (getStructNames fileName content)
   \<and> take (length fileName - 2) fileName
         \<notin> sc_name ` set (getStructCompletions fileName content)
   \<and> getStructNames ''foo.m'' ''foo.bar'' = []
   \<and> getStructCompletions ''foo.m'' ''foo.bar'' = []"
proof -
  have "sc_name ` set (getStructCompletions fileName content)
          = set (getStructNames fileName content)"
    by (auto simp: getStructCompletions_def image_iff)
  then show ?thesis
    using getStructNames_not_basename [of fileName content] getStructNames_foo
    by (simp add: getStructCompletions_def)
qed

subsection \<open>Struct names and members on concrete contents\<close>

lemma findMemberNames_fileName:
  "findMemberNames fileName content structName = findMemberNames [] content structName"
  by (simp add: findMemberNames_def)

lemma sab_struct_names:
  "map (\<lambda>v. group v 1) (matchAll ''s.a = 1; s.b(2); s.a;'' struct_regex)
     = [''s'', ''s'', ''s'']"
  by code_simp

lemma sab_members: "findMemberNames [] ''s.a = 1; s.b(2); s.a;'' ''s'' = [''a'']"
  by code_simp

text \<open>
  C1. On the content \<^verbatim>\<open>s.a = 1; s.b(2); s.a;\<close>, for every file name whose base name is
  not \<^verbatim>\<open>s\<close>, \<open>getStructNames\<close> returns exactly \<^verbatim>\<open>["s"]\<close> and \<open>findMemberNames\<close> for the
  struct name \<^verbatim>\<open>s\<close> returns exactly \<^verbatim>\<open>["a"]\<close>: the token of \<^verbatim>\<open>s.b(2);\<close> has a parenthesis
  and is dropped, and \<^verbatim>\<open>a\<close>, met twice, is listed once.
\<close>

theorem C1_struct_example:
  assumes "take (length fileName - 2) fileName \<noteq> ''s''"
  shows "getStructNames fileName ''s.a = 1; s.b(2); s.a;'' = [''s'']
       \<and> findMemberNames fileName ''s.a = 1; s.b(2); s.a;'' ''s'' = [''a'']"
proof -
  have b: "slice0 fileName (int (length fileName) - 2) \<noteq> ''s''"
    using assms by (simp add: slice0_basename)
  have "getStructNames fileName ''s.a = 1; s.b(2); s.a;'' = [''s'']"
    unfolding getStructNames_def Let_def sab_struct_names
    using b by (simp add: filter_indexed_def)
  then show ?thesis
    using findMemberNames_fileName [of fileName] sab_members by simp
qed

theorem C1_struct_example_witness:
  "take (length ''foo.m'' - 2) ''foo.m'' \<noteq> ''s''
   \<and> getStructNames ''foo.m'' ''s.a = 1; s.b(2); s.a;'' = [''s'']
   \<and> findMemberNames ''foo.m'' ''s.a = 1; s.b(2); s.a;'' ''s'' = [''a'']"
proof -
  have h: "take (length ''foo.m'' - 2) ''foo.m'' \<noteq> ''s''" by simp
  show ?thesis using h C1_struct_example [OF h] by simp
qed

lemma xs_field_members: "findMemberNames [] ''xs.field'' ''s'' = [''field'']"
  by code_simp

lemma xs_field_structs: "getStructNames ''t.m'' ''xs.field'' = [''xs'']"
  by code_simp

text \<open>
  C10. \<open>findMemberNames\<close> asks for nothing before the struct name: on the content
  \<^verbatim>\<open>xs.field\<close> and the struct name \<^verbatim>\<open>s\<close> it returns \<^verbatim>\<open>["field"]\<close>, although the only
  dotted identifier of that content is \<^verbatim>\<open>xs\<close>.
\<close>

theorem C10_member_of_suffix:
  "findMemberNames fileName ''xs.field'' ''s'' = [''field'']
   \<and> getStructNames ''t.m'' ''xs.field'' = [''xs'']"
  using findMemberNames_fileName [of fileName] xs_field_members xs_field_structs by simp

subsection \<open>getFunctionCall\<close>

lemma join_with_Cons:
  "join_with d (p # ps) = (if ps = [] then p else p @ d # join_with d ps)"
  by (cases ps) simp_all

lemma join_split_on: "join_with d (split_on d s) = s"
proof (induction s)
  case Nil
  show ?case by simp
next
  case (Cons c cs)
  obtain p ps where sp: "split_on d cs = p # ps"
    by (cases "split_on d cs") simp_all
  with Cons have j: "join_with d (p # ps) = cs" by simp
  show ?case
  proof (cases "c = d")
    case True
    then show ?thesis using sp j by simp
  next
    case False
    then show ?thesis using sp j by (auto simp: join_with_Cons split: if_splits)
  qed
qed

lemma split_on_no_separator: "p \<in> set (split_on d s) \<Longrightarrow> d \<notin> set p"
proof (induction s arbitrary: p)
  case Nil
  then show ?case by simp
next
  case (Cons c cs)
  obtain q qs where sp: "split_on d cs = q # qs"
    by (cases "split_on d cs") simp_all
  show ?case
  proof (cases "c = d")
    case True
    with Cons.prems have "p = [] \<or> p \<in> set (split_on d cs)" by simp
    then show ?thesis using Cons.IH by auto
  next
    case False
    with Cons.prems sp have "p = c # q \<or> p \<in> set qs" by simp
    moreover have "d \<notin> set q" using Cons.IH [of q] sp by simp
    moreover have "d \<notin> set r" if "r \<in> set qs" for r using Cons.IH [of r] sp that by simp
    ultimately show ?thesis using False by auto
  qed
qed

lemma comma_pieces_split: "comma_pieces seg (split_on CHR '','' (filter non_space seg))"
  by (simp add: comma_pieces_def join_split_on list_all_iff split_on_no_separator)

lemma compute_example:
  "getFunctionCall ''[a, b] = compute(x, y)''
     = [\<lparr>fc_name = ''compute'', fc_params = [''x'', ''y''], fc_returns = [''a'', ''b'']\<rparr>]"
  by code_simp

lemma unchecked_example:
  "getFunctionCall ''[1+, ?] = f()''
     = [\<lparr>fc_name = ''f'', fc_params = [[]], fc_returns = [''1+'', ''?'']\<rparr>]"
  by code_simp

text \<open>
  C7. On the content \<^verbatim>\<open>[a, b] = compute(x, y)\<close>, \<open>getFunctionCall\<close> returns exactly one call,
  with name \<^verbatim>\<open>compute\<close>, returns \<^verbatim>\<open>["a", "b"]\<close> and params \<^verbatim>\<open>["x", "y"]\<close>. For every content,
  the calls returned correspond one to one, in order, to the matches of the bracketed
  multi-assignment pattern; the name is the pattern's second group, and the returns and
  the params are the first and the third group with all whitespace removed and then split
  at the commas: the pieces have no comma, and joined by commas they give the group
  without its whitespace. The pieces are not checked: \<^verbatim>\<open>[1+, ?] = f()\<close> gives the returns
  \<^verbatim>\<open>["1+", "?"]\<close> and the params \<^verbatim>\<open>[""]\<close>.
\<close>

theorem C7_call_site:
  "getFunctionCall ''[a, b] = compute(x, y)''
     = [\<lparr>fc_name = ''compute'', fc_params = [''x'', ''y''], fc_returns = [''a'', ''b'']\<rparr>]
   \<and> getFunctionCall ''[1+, ?] = f()''
     = [\<lparr>fc_name = ''f'', fc_params = [[]], fc_returns = [''1+'', ''?'']\<rparr>]
   \<and> list_all2 (\<lambda>m fc. fc_name fc = group m 2
                    \<and> fc_returns fc = split_on CHR '','' (filter non_space (group m 1))
                    \<and> fc_params fc = split_on CHR '','' (filter non_space (group m 3))
                    \<and> comma_pieces (group m 1) (fc_returns fc)
                    \<and> comma_pieces (group m 3) (fc_params fc))
        (matchAll content call_regex) (getFunctionCall content)"
proof -
  have "list_all2 (\<lambda>m fc. fc_name fc = group m 2
                    \<and> fc_returns fc = split_on CHR '','' (filter non_space (group m 1))
                    \<and> fc_params fc = split_on CHR '','' (filter non_space (group m 3))
                    \<and> comma_pieces (group m 1) (fc_returns fc)
                    \<and> comma_pieces (group m 3) (fc_params fc))
        (matchAll content call_regex) (getFunctionCall content)"
    unfolding getFunctionCall_def
    by (simp add: list_all2_map2 list_all2_same comma_pieces_split)
  then show ?thesis using compute_example unchecked_example by simp
qed

end
